theory Spec2Isabelle
  imports Complex_Main
begin

section \<open>Common modelling conventions\<close>

text \<open>
  Python exceptions are values of the type \<open>error\<close>; a function that may raise returns
  \<open>error + 'a\<close> with \<open>Inl\<close> for the exception. Frame indices and sample offsets are
  Python integers (\<open>int\<close>). Floating-point samples, energies and pitch values are
  idealised as \<open>real\<close>; the NaN used as "unvoiced" marker in pitch arrays is \<open>None\<close>
  of \<open>real option\<close>.
\<close>

datatype error = ValueError | RuntimeError | IndexError | AttributeError | KeyError | VocoderError
  | AxisError | TypeError

type_synonym pitch = "real option"

text \<open>Index normalisation of a Python slice bound against a sequence of length \<open>n\<close>.\<close>

definition slice_bound :: "int \<Rightarrow> int \<Rightarrow> int" where
  "slice_bound n i = (if i < 0 then max 0 (n + i) else min n i)"

text \<open>\<open>xs[a:b]\<close> of Python and numpy (step 1).\<close>

definition py_slice :: "'a list \<Rightarrow> int \<Rightarrow> int \<Rightarrow> 'a list" where
  "py_slice xs a b =
     (let n = int (length xs); a' = slice_bound n a; b' = slice_bound n b
      in take (nat (b' - a')) (drop (nat a') xs))"

section \<open>Segmenter: \<open>AudioProcessor._segment_audio\<close>\<close>

text \<open>
  The argument \<open>mel\<close> is the tensor \<open>process_audio\<close> computes from the mono signal: its
  shape is \<open>(1, mel_bins, mel_frames)\<close>, and \<open>mel_value mel b t\<close> is the entry of bin \<open>b\<close>
  at frame \<open>t\<close>.
\<close>

record mel_spec =
  mel_bins :: nat
  mel_frames :: nat
  mel_value :: "nat \<Rightarrow> nat \<Rightarrow> real"

text \<open>
  \<open>np.mean\<close> of the values along one axis: the mean of no value is NaN, which is \<open>None\<close>
  here as in pitch arrays.
\<close>

definition np_mean :: "real list \<Rightarrow> real option" where
  "np_mean xs = (if xs = [] then None else Some (sum_list xs / real (length xs)))"

text \<open>
  Lines 168-169. \<open>mel.squeeze()\<close> removes every axis of length 1, and the mean is taken
  along the first axis that is left. With more (or less) than one bin and more (or less)
  than one frame the result is the energy per frame. With one bin, or with one frame,
  only one axis is left and the mean is a single number without a frame axis
  (\<open>ZeroDim\<close>). With one bin and one frame no axis is left and \<open>np.mean(..., axis=0)\<close>
  raises \<open>AxisError\<close>.
\<close>

datatype energy = ZeroDim "real option" | PerFrame "real option list"

definition frame_energy :: "mel_spec \<Rightarrow> error + energy" where
  "frame_energy mel =
     (let bins = mel_bins mel; frames = mel_frames mel
      in if bins = 1 \<and> frames = 1 then Inl AxisError
         else if bins = 1
         then Inr (ZeroDim (np_mean (map (\<lambda>t. mel_value mel 0 t) [0..<frames])))
         else if frames = 1
         then Inr (ZeroDim (np_mean (map (\<lambda>b. mel_value mel b 0) [0..<bins])))
         else Inr (PerFrame (map (\<lambda>t. np_mean (map (\<lambda>b. mel_value mel b t) [0..<bins]))
                               [0..<frames])))"

text \<open>
  Line 172 converts the energy to decibels, line 173 subtracts the maximum (\<open>np.max\<close>
  raises \<open>ValueError\<close> on an empty array), line 175 thresholds. NaN goes through
  \<open>np.maximum\<close>, \<open>np.log10\<close>, \<open>np.max\<close> and the subtraction, and every comparison with
  NaN is false.
\<close>

definition energy_to_db :: "real \<Rightarrow> real" where
  "energy_to_db e = 20 * log 10 (max e (1 / 100000))"

definition nan_max :: "real option \<Rightarrow> real option \<Rightarrow> real option" where
  "nan_max a b = (case a of None \<Rightarrow> None
                  | Some x \<Rightarrow> (case b of None \<Rightarrow> None | Some y \<Rightarrow> Some (max x y)))"

definition np_max :: "real option list \<Rightarrow> error + real option" where
  "np_max xs = (case xs of [] \<Rightarrow> Inl ValueError | x # ys \<Rightarrow> Inr (fold nan_max ys x))"

definition above_threshold :: "real option \<Rightarrow> real option \<Rightarrow> real \<Rightarrow> bool" where
  "above_threshold d m threshold_db =
     (case d of None \<Rightarrow> False
      | Some x \<Rightarrow> (case m of None \<Rightarrow> False | Some y \<Rightarrow> x - y > threshold_db))"

definition is_speech_mask :: "real option list \<Rightarrow> real \<Rightarrow> error + bool list" where
  "is_speech_mask energy threshold_db =
     (let energy_db = map (map_option energy_to_db) energy
      in case np_max energy_db of
           Inl err \<Rightarrow> Inl err
         | Inr m \<Rightarrow> Inr (map (\<lambda>d. above_threshold d m threshold_db) energy_db))"

text \<open>
  \<open>scipy.ndimage.binary_dilation\<close> of a one-dimensional mask with the structuring
  element \<open>np.ones(n)\<close>, one iteration, border value 0, origin 0. (A mask without an
  axis is rejected with \<open>RuntimeError\<close>, since the structuring element has one axis;
  that case is in \<open>segment_audio\<close>.) The library centres
  the (reflected) element at offset \<open>(n - 1) div 2\<close>: output frame \<open>p\<close> is set when some
  input frame \<open>p + c - (n - 1) div 2\<close> with \<open>0 \<le> c < n\<close> lies inside the array and is
  set. An empty structuring element is rejected with \<open>RuntimeError\<close>.
\<close>

definition dilated_at :: "bool list \<Rightarrow> nat \<Rightarrow> nat \<Rightarrow> bool" where
  "dilated_at inp n p =
     list_ex (\<lambda>c. let k = int p + int c - int ((n - 1) div 2)
                  in 0 \<le> k \<and> k < int (length inp) \<and> inp ! nat k) [0..<n]"

definition binary_dilation :: "bool list \<Rightarrow> nat \<Rightarrow> error + bool list" where
  "binary_dilation inp n =
     (if n = 0 then Inl RuntimeError
      else Inr (map (dilated_at inp n) [0..<length inp]))"

text \<open>
  The loop of lines 184-191 over \<open>enumerate(is_speech)\<close>: \<open>i\<close> is the index of the head
  of the remaining mask, \<open>start\<close> the open run (if any), \<open>segments\<close> the list built so far.
\<close>

fun find_segments :: "bool list \<Rightarrow> int \<Rightarrow> int option \<Rightarrow> (int \<times> int) list
    \<Rightarrow> (int \<times> int) list \<times> int option" where
  "find_segments [] i start segments = (segments, start)"
| "find_segments (active # rest) i start segments =
     (if active \<and> start = None then find_segments rest (i + 1) (Some i) segments
      else if \<not> active \<and> start \<noteq> None
        then find_segments rest (i + 1) None (segments @ [(the start, i)])
      else find_segments rest (i + 1) start segments)"

text \<open>Lines 184-198: the loop, the run still open at the end, the default, the clamp.\<close>

definition segments_of_mask :: "bool list \<Rightarrow> (int \<times> int) list" where
  "segments_of_mask is_speech =
     (let (segments, start) = find_segments is_speech 0 None [];
          segments = (case start of
                        Some s \<Rightarrow> segments @ [(s, int (length is_speech))]
                      | None \<Rightarrow> segments);
          segments = (if segments = [] then [(0, int (length is_speech))] else segments)
      in map (\<lambda>(start, end). (max 0 start, max start end)) segments)"

text \<open>
  \<open>_segment_audio(mel, threshold_db, min_silence_frames)\<close>. When the energy is a single
  number, lines 172-175 compute a single truth value and \<open>binary_dilation\<close> raises.
\<close>

definition segment_audio :: "mel_spec \<Rightarrow> real \<Rightarrow> nat \<Rightarrow> error + (int \<times> int) list" where
  "segment_audio mel threshold_db min_silence_frames =
     (case frame_energy mel of
        Inl err \<Rightarrow> Inl err
      | Inr (ZeroDim e) \<Rightarrow> Inl RuntimeError
      | Inr (PerFrame energy) \<Rightarrow>
          (case is_speech_mask energy threshold_db of
             Inl err \<Rightarrow> Inl err
           | Inr is_speech \<Rightarrow>
               (case binary_dilation is_speech min_silence_frames of
                  Inl err \<Rightarrow> Inl err
                | Inr dilated \<Rightarrow> Inr (segments_of_mask dilated))))"

text \<open>
  Proof vocabulary for the segmenter. \<open>runs_from\<close> is the loop together with the run it
  leaves open; \<open>covered\<close> says that frame \<open>k\<close> lies in one of the closed-open ranges;
  \<open>seg_before\<close> orders two ranges with at least one frame between them; \<open>tiles_from\<close>
  says that the ranges, in order, tile \<open>[a, n)\<close> without gap or overlap.
\<close>

definition runs_from :: "bool list \<Rightarrow> int \<Rightarrow> int option \<Rightarrow> (int \<times> int) list" where
  "runs_from xs i st =
     (case find_segments xs i st [] of
        (segs, st') \<Rightarrow> segs @ (case st' of Some s \<Rightarrow> [(s, i + int (length xs))] | None \<Rightarrow> []))"

definition covered :: "(int \<times> int) list \<Rightarrow> int \<Rightarrow> bool" where
  "covered segs k = list_ex (\<lambda>(s, e). s \<le> k \<and> k < e) segs"

definition seg_before :: "int \<times> int \<Rightarrow> int \<times> int \<Rightarrow> bool" where
  "seg_before p q = (snd p < fst q)"

fun tiles_from :: "int \<Rightarrow> (int \<times> int) list \<Rightarrow> int \<Rightarrow> bool" where
  "tiles_from a [] n = (a = n)"
| "tiles_from a ((s, e) # rest) n = (s = a \<and> s \<le> e \<and> tiles_from e rest n)"

section \<open>Pitch conversion\<close>

text \<open>
  Lines 153-156 of \<open>process_audio\<close> (Hz to MIDI pitch, NaN where the frame is unvoiced) and
  lines 238-241 of \<open>synthesize_segment\<close>, the same as lines 278-281 of \<open>synthesize\<close>
  (MIDI pitch to Hz, 0 where the pitch is NaN).
\<close>

definition hz_to_midi :: "real \<Rightarrow> pitch" where
  "hz_to_midi hz = (if hz > 0 then Some (69 + 12 * log 2 (hz / 440)) else None)"

definition midi_to_hz :: "pitch \<Rightarrow> real" where
  "midi_to_hz p = (case p of None \<Rightarrow> 0 | Some m \<Rightarrow> 440 * 2 powr ((m - 69) / 12))"

section \<open>Padded synthesis: \<open>AudioProcessor.synthesize_segment\<close>\<close>

text \<open>
  The processor: whether a model is loaded, and the integer entries of the \<open>config\<close>
  dictionary (empty until a model is loaded). The vocoder \<open>model.Gforward\<close> is a
  parameter: it takes the mel slice (a list of frames) and the frequency curve and
  returns the waveform or fails.
\<close>

record processor =
  model_loaded :: bool
  config :: "(string \<times> int) list"

text \<open>\<open>self.config['hop_size']\<close>: a missing key raises \<open>KeyError\<close>.\<close>

definition config_hop_size :: "processor \<Rightarrow> error + int" where
  "config_hop_size proc =
     (case map_of (config proc) ''hop_size'' of None \<Rightarrow> Inl KeyError | Some h \<Rightarrow> Inr h)"

type_synonym 'm vocoder = "'m list \<Rightarrow> real list \<Rightarrow> error + real list"

text \<open>\<open>np.pad(xs, (before, after), constant_values=v)\<close>; a negative width is rejected.\<close>

definition np_pad :: "'a list \<Rightarrow> int \<Rightarrow> int \<Rightarrow> 'a \<Rightarrow> error + 'a list" where
  "np_pad xs before after v =
     (if before < 0 \<or> after < 0 then Inl ValueError
      else Inr (replicate (nat before) v @ xs @ replicate (nat after) v))"

text \<open>Lines 210-214: the padded range for a segment on a track of \<open>n\<close> frames.\<close>

definition padded_range :: "int \<Rightarrow> int \<times> int \<Rightarrow> int \<times> int" where
  "padded_range n segment =
     (let (start, end) = segment; pad_frames = 64
      in (max 0 (start - pad_frames), min n (end + pad_frames)))"

text \<open>Lines 227-232: the pitch slice is brought to the expected length.\<close>

definition fit_f0_segment :: "pitch list \<Rightarrow> int \<Rightarrow> error + pitch list" where
  "fit_f0_segment f0_midi_segment expected_len =
     (if int (length f0_midi_segment) \<noteq> expected_len
      then if int (length f0_midi_segment) < expected_len
           then np_pad f0_midi_segment 0 (expected_len - int (length f0_midi_segment)) None
           else Inr (py_slice f0_midi_segment 0 expected_len)
      else Inr f0_midi_segment)"

text \<open>Lines 209-241: what is handed to the vocoder, the mel slice and the curve in Hz.\<close>

definition vocoder_input :: "'m list \<Rightarrow> int \<times> int \<Rightarrow> pitch list \<Rightarrow> error + ('m list \<times> real list)" where
  "vocoder_input mel segment f0_midi_segment =
     (let (start, end) = segment;
          (p_start, p_end) = padded_range (int (length mel)) segment;
          mel_slice = py_slice mel p_start p_end;
          pre_pad = start - p_start;
          post_pad = p_end - end;
          expected_len = end - start
      in case fit_f0_segment f0_midi_segment expected_len of
           Inl err \<Rightarrow> Inl err
         | Inr f0_fitted \<Rightarrow>
             (case np_pad f0_fitted pre_pad post_pad None of
                Inl err \<Rightarrow> Inl err
              | Inr f0_padded \<Rightarrow> Inr (mel_slice, map midi_to_hz f0_padded)))"

text \<open>Lines 253-261: the context is cut off again, unless nothing would be left.\<close>

definition trim_padding :: "real list \<Rightarrow> int \<Rightarrow> int \<Rightarrow> int \<Rightarrow> real list" where
  "trim_padding audio_padded pre_pad post_pad hop_size =
     (let trim_start = pre_pad * hop_size;
          trim_end = int (length audio_padded) - post_pad * hop_size
      in if trim_end \<le> trim_start then audio_padded
         else py_slice audio_padded trim_start trim_end)"

definition synthesize_segment ::
    "processor \<Rightarrow> 'm vocoder \<Rightarrow> 'm list \<Rightarrow> int \<times> int \<Rightarrow> pitch list \<Rightarrow> error + real list" where
  "synthesize_segment proc vocoder mel segment f0_midi_segment =
     (if \<not> model_loaded proc then Inl RuntimeError
      else case vocoder_input mel segment f0_midi_segment of
             Inl err \<Rightarrow> Inl err
           | Inr (mel_slice, f0_hz) \<Rightarrow>
               (case vocoder mel_slice f0_hz of
                  Inl err \<Rightarrow> Inl err
                | Inr audio_padded \<Rightarrow>
                    (case config_hop_size proc of
                       Inl err \<Rightarrow> Inl err
                     | Inr hop_size \<Rightarrow>
                         let (start, end) = segment;
                             (p_start, p_end) = padded_range (int (length mel)) segment
                         in Inr (trim_padding audio_padded (start - p_start) (p_end - end)
                                   hop_size))))"

text \<open>
  The wording of the specification for the length normalisation, for comparison with
  \<open>fit_f0_segment\<close>: truncate when too long, pad with zeros when too short.
\<close>

definition zero_pad_or_truncate :: "pitch list \<Rightarrow> nat \<Rightarrow> pitch list" where
  "zero_pad_or_truncate seg n = take n seg @ replicate (n - length seg) (Some 0)"

section \<open>Tracks and the editor state: \<open>HifiShifterGUI\<close>\<close>

text \<open>
  The class \<open>Track\<close> is used by \<open>main_window.py\<close> through its attributes; the record has
  the attributes the editor reads and writes. An entry of \<open>segment_states\<close> is a dictionary
  of which the editor touches the key \<open>'dirty'\<close>. Arrays are values here: every array the
  editor puts on a history stack is a copy (\<open>f0_edited.copy()\<close>), and an array popped
  from a stack is no longer on it, so the stacks and \<open>f0_edited\<close> share no array;
  \<open>f0_edited\<close> is taken to be an array of its own and not the array \<open>f0_original\<close>
  (\<open>Track.load\<close> seeds it with a copy, according to the specification).
\<close>

record segment_state =
  dirty :: bool

record track =
  track_type :: string
  f0_original :: "pitch list option"
  f0_edited :: "pitch list option"
  segments :: "(int \<times> int) list"
  segment_states :: "segment_state list"
  undo_stack :: "pitch list list"
  redo_stack :: "pitch list list"
  shift_value :: real
  muted :: bool
  solo :: bool
  volume :: real
  start_frame :: int
  synthesized_audio :: "real list option"

text \<open>
  The texts shown in the status label, by the line of \<open>main_window.py\<close> that sets them:
  457 (nothing to undo), 471 (undone), 479 (nothing to redo), 493 (redone),
  1099 (track moved to a frame), 1205 (pitch modified, not yet synthesized).
\<close>

datatype status = StatusOther | NothingToUndo | UndoDone | NothingToRedo | RedoDone
  | TrackMoved int | PitchModified

text \<open>
  The editor state. \<open>move_start_x\<close> and \<open>move_start_frame\<close> are attributes that do not
  exist before the first click with the move tool: the outer \<open>None\<close> is "not assigned".
\<close>

record gui =
  processor :: processor
  tracks :: "track list"
  current_track_idx :: int
  tool_mode :: string
  last_mouse_pos :: "(int \<times> real) option"
  move_start_x :: "real option option"
  move_start_frame :: "int option"
  status_label :: status
  is_dirty :: bool

text \<open>The property \<open>current_track\<close> (lines 71-75).\<close>

definition current_track :: "gui \<Rightarrow> track option" where
  "current_track g =
     (if 0 \<le> current_track_idx g \<and> current_track_idx g < int (length (tracks g))
      then Some (tracks g ! nat (current_track_idx g)) else None)"

text \<open>
  The handlers mutate the object \<open>self.current_track\<close> returns; in the model the changed
  track is written back at its index.
\<close>

definition set_current_track :: "gui \<Rightarrow> track \<Rightarrow> gui" where
  "set_current_track g t = g\<lparr>tracks := (tracks g)[nat (current_track_idx g) := t]\<rparr>"

text \<open>\<open>for state in track.segment_states: state['dirty'] = True\<close>\<close>

definition all_dirty :: "segment_state list \<Rightarrow> segment_state list" where
  "all_dirty states = map (\<lambda>state. state\<lparr>dirty := True\<rparr>) states"

subsection \<open>Edit history (lines 438-493)\<close>

definition push_undo :: "gui \<Rightarrow> gui" where
  "push_undo g =
     (case current_track g of
        None \<Rightarrow> g
      | Some track \<Rightarrow>
          (case f0_edited track of
             None \<Rightarrow> g
           | Some f0 \<Rightarrow>
               if track_type track \<noteq> ''vocal'' then g
               else let stack = undo_stack track @ [f0];
                        stack = (if length stack > 16 then tl stack else stack)
                    in set_current_track g (track\<lparr>undo_stack := stack, redo_stack := []\<rparr>)))"

text \<open>\<open>track.f0_edited.copy()\<close> raises \<open>AttributeError\<close> when the curve is \<open>None\<close>.\<close>

definition undo :: "gui \<Rightarrow> error + gui" where
  "undo g =
     (case current_track g of
        None \<Rightarrow> Inr g
      | Some track \<Rightarrow>
          if track_type track \<noteq> ''vocal'' then Inr g
          else if undo_stack track = [] then Inr (g\<lparr>status_label := NothingToUndo\<rparr>)
          else (case f0_edited track of
                  None \<Rightarrow> Inl AttributeError
                | Some f0 \<Rightarrow>
                    Inr ((set_current_track g
                           (track\<lparr>redo_stack := redo_stack track @ [f0],
                                  f0_edited := Some (last (undo_stack track)),
                                  undo_stack := butlast (undo_stack track),
                                  segment_states := all_dirty (segment_states track)\<rparr>))
                         \<lparr>status_label := UndoDone\<rparr>)))"

definition redo :: "gui \<Rightarrow> error + gui" where
  "redo g =
     (case current_track g of
        None \<Rightarrow> Inr g
      | Some track \<Rightarrow>
          if track_type track \<noteq> ''vocal'' then Inr g
          else if redo_stack track = [] then Inr (g\<lparr>status_label := NothingToRedo\<rparr>)
          else (case f0_edited track of
                  None \<Rightarrow> Inl AttributeError
                | Some f0 \<Rightarrow>
                    Inr ((set_current_track g
                           (track\<lparr>undo_stack := undo_stack track @ [f0],
                                  f0_edited := Some (last (redo_stack track)),
                                  redo_stack := butlast (redo_stack track),
                                  segment_states := all_dirty (segment_states track)\<rparr>))
                         \<lparr>status_label := RedoDone\<rparr>)))"

subsection \<open>Drawing (lines 1134-1205)\<close>

text \<open>\<open>int(r)\<close> of a float truncates towards zero.\<close>

definition py_int :: "real \<Rightarrow> int" where
  "py_int r = (if 0 \<le> r then \<lfloor>r\<rfloor> else \<lceil>r\<rceil>)"

text \<open>An index into an array of length \<open>n\<close>: negative indices count from the end.\<close>

definition np_index :: "nat \<Rightarrow> int \<Rightarrow> error + nat" where
  "np_index n i =
     (if 0 \<le> i \<and> i < int n then Inr (nat i)
      else if - int n \<le> i \<and> i < 0 then Inr (nat (int n + i))
      else Inl IndexError)"

text \<open>
  Lines 1178-1183 and 1185-1190: one frame is set (left button) or restored from the
  original curve (right button). The result is the curve and the flag \<open>changed\<close>.
\<close>

definition draw_point ::
    "bool \<Rightarrow> bool \<Rightarrow> pitch list option \<Rightarrow> int \<Rightarrow> real \<Rightarrow> pitch list
      \<Rightarrow> error + (pitch list \<times> bool)" where
  "draw_point is_left is_right f0_orig x y f0 =
     (if is_left
      then (case np_index (length f0) x of
              Inl err \<Rightarrow> Inl err
            | Inr j \<Rightarrow> Inr (f0[j := Some y], True))
      else if is_right \<and> f0_orig \<noteq> None
      then (case np_index (length (the f0_orig)) x of
              Inl err \<Rightarrow> Inl err
            | Inr k \<Rightarrow>
                (case np_index (length f0) x of
                   Inl err \<Rightarrow> Inl err
                 | Inr j \<Rightarrow> Inr (f0[j := the f0_orig ! k], True)))
      else Inr (f0, False))"

text \<open>Lines 1167-1176: the loop over \<open>range(start_x, end_x + 1)\<close> of a drag.\<close>

fun draw_line ::
    "int list \<Rightarrow> bool \<Rightarrow> bool \<Rightarrow> pitch list option \<Rightarrow> int \<Rightarrow> real \<Rightarrow> int \<Rightarrow> real
      \<Rightarrow> pitch list \<Rightarrow> bool \<Rightarrow> error + (pitch list \<times> bool)" where
  "draw_line [] is_left is_right f0_orig last_x last_y x y f0 changed = Inr (f0, changed)"
| "draw_line (i # rest) is_left is_right f0_orig last_x last_y x y f0 changed =
     (if is_left
      then let ratio = (if x \<noteq> last_x
                        then real_of_int (i - last_x) / real_of_int (x - last_x) else 0);
               interp_y = last_y + ratio * (y - last_y)
           in (case np_index (length f0) i of
                 Inl err \<Rightarrow> Inl err
               | Inr j \<Rightarrow>
                   draw_line rest is_left is_right f0_orig last_x last_y x y
                     (f0[j := Some interp_y]) True)
      else if is_right
      then (case f0_orig of
              None \<Rightarrow> draw_line rest is_left is_right f0_orig last_x last_y x y f0 changed
            | Some orig \<Rightarrow>
                (case np_index (length orig) i of
                   Inl err \<Rightarrow> Inl err
                 | Inr k \<Rightarrow>
                     (case np_index (length f0) i of
                        Inl err \<Rightarrow> Inl err
                      | Inr j \<Rightarrow>
                          draw_line rest is_left is_right f0_orig last_x last_y x y
                            (f0[j := orig ! k]) True)))
      else draw_line rest is_left is_right f0_orig last_x last_y x y f0 changed)"

text \<open>
  Lines 1154-1190, entered when \<open>0 \<le> x < len(f0)\<close>: the edit of the curve. The result is
  the curve, the flag \<open>changed\<close> and \<open>affected_range\<close>.
\<close>

definition draw_edit ::
    "(int \<times> real) option \<Rightarrow> bool \<Rightarrow> bool \<Rightarrow> pitch list option \<Rightarrow> int \<Rightarrow> real
      \<Rightarrow> pitch list \<Rightarrow> error + (pitch list \<times> bool \<times> int \<times> int)" where
  "draw_edit last_pos is_left is_right f0_orig x y f0 =
     (case last_pos of
        Some (last_x, last_y) \<Rightarrow>
          let start_x = max 0 (min last_x x);
              end_x = min (int (length f0) - 1) (max last_x x)
          in if start_x < end_x
             then (case draw_line [start_x..end_x] is_left is_right f0_orig last_x last_y x y
                          f0 False of
                     Inl err \<Rightarrow> Inl err
                   | Inr (f0', changed) \<Rightarrow> Inr (f0', changed, start_x, end_x))
             else (case draw_point is_left is_right f0_orig x y f0 of
                     Inl err \<Rightarrow> Inl err
                   | Inr (f0', changed) \<Rightarrow> Inr (f0', changed, start_x, end_x))
      | None \<Rightarrow>
          (case draw_point is_left is_right f0_orig x y f0 of
             Inl err \<Rightarrow> Inl err
           | Inr (f0', changed) \<Rightarrow> Inr (f0', changed, x, x)))"

text \<open>
  Lines 1195-1198: the loop over \<open>enumerate(track.segments)\<close> that marks the segments
  meeting \<open>[min_x, max_x]\<close>; \<open>i\<close> is the index of the head of the remaining segments.
\<close>

fun mark_dirty ::
    "(int \<times> int) list \<Rightarrow> nat \<Rightarrow> int \<Rightarrow> int \<Rightarrow> segment_state list
      \<Rightarrow> error + segment_state list" where
  "mark_dirty [] i min_x max_x states = Inr states"
| "mark_dirty ((seg_start, seg_end) # rest) i min_x max_x states =
     (if \<not> (max_x < seg_start \<or> min_x \<ge> seg_end)
      then if i < length states
           then mark_dirty rest (i + 1) min_x max_x (states[i := (states ! i)\<lparr>dirty := True\<rparr>])
           else Inl IndexError
      else mark_dirty rest (i + 1) min_x max_x states)"

text \<open>
  Lines 1147-1205, after the coordinate \<open>x\<close> has been computed and the undo snapshot
  taken: edit, mark, remember the position, set the status. An exception ends the
  handler; the state it leaves behind is not modelled.
\<close>

definition draw_at :: "gui \<Rightarrow> int \<Rightarrow> real \<Rightarrow> bool \<Rightarrow> bool \<Rightarrow> error + gui" where
  "draw_at g x y is_left is_right =
     (case current_track g of
        None \<Rightarrow> Inr g
      | Some track \<Rightarrow>
          (case f0_edited track of
             None \<Rightarrow> Inr g
           | Some f0 \<Rightarrow>
               if 0 \<le> x \<and> x < int (length f0)
               then (case draw_edit (last_mouse_pos g) is_left is_right (f0_original track)
                            x y f0 of
                       Inl err \<Rightarrow> Inl err
                     | Inr (f0', changed, min_x, max_x) \<Rightarrow>
                         (case (if changed
                                then mark_dirty (segments track) 0 min_x max_x
                                       (segment_states track)
                                else Inr (segment_states track)) of
                            Inl err \<Rightarrow> Inl err
                          | Inr states \<Rightarrow>
                              let g' = (set_current_track g
                                          (track\<lparr>f0_edited := Some f0',
                                                 segment_states := states\<rparr>))
                                       \<lparr>last_mouse_pos := Some (x, y)\<rparr>
                              in Inr (if changed
                                      then g'\<lparr>is_dirty := True, status_label := PitchModified\<rparr>
                                      else g')))
               else Inr g))"

definition handle_draw :: "gui \<Rightarrow> real \<times> real \<Rightarrow> bool \<Rightarrow> bool \<Rightarrow> error + gui" where
  "handle_draw g point is_left is_right =
     (case current_track g of
        None \<Rightarrow> Inr g
      | Some track \<Rightarrow>
          if track_type track \<noteq> ''vocal'' \<or> f0_edited track = None then Inr g
          else let x = py_int (fst point) - start_frame track;
                   y = snd point;
                   g = (if last_mouse_pos g = None then push_undo g else g)
               in draw_at g x y is_left is_right)"

subsection \<open>Mouse handlers (lines 1076-1132 and 1207-1213)\<close>

datatype button = LeftButton | RightButton | OtherButton

text \<open>
  \<open>on_scene_mouse_click\<close>: \<open>accepted\<close> is \<open>ev.isAccepted()\<close>, \<open>inside\<close> says whether the
  position lies in the view box, \<open>point\<close> is the position in view coordinates.
\<close>

definition on_scene_mouse_click ::
    "gui \<Rightarrow> bool \<Rightarrow> bool \<Rightarrow> button \<Rightarrow> real \<times> real \<Rightarrow> error + gui" where
  "on_scene_mouse_click g accepted inside btn point =
     (case current_track g of
        None \<Rightarrow> Inr g
      | Some track \<Rightarrow>
          if accepted then Inr g
          else if \<not> inside then Inr g
          else if btn = LeftButton \<or> btn = RightButton
          then let is_left = (btn = LeftButton); is_right = (btn = RightButton)
               in if tool_mode g = ''move'' \<and> is_left
                  then Inr (g\<lparr>move_start_x := Some (Some (fst point)),
                              move_start_frame := Some (start_frame track)\<rparr>)
                  else if tool_mode g = ''draw'' \<and> track_type track = ''vocal''
                          \<and> f0_edited track \<noteq> None
                  then handle_draw (g\<lparr>last_mouse_pos := None\<rparr>) point is_left is_right
                  else Inr g
          else Inr g)"

definition on_scene_mouse_move :: "gui \<Rightarrow> bool \<Rightarrow> bool \<Rightarrow> real \<times> real \<Rightarrow> error + gui" where
  "on_scene_mouse_move g is_left is_right point =
     (case current_track g of
        None \<Rightarrow> Inr g
      | Some track \<Rightarrow>
          if \<not> (is_left \<or> is_right) then Inr (g\<lparr>last_mouse_pos := None\<rparr>)
          else if tool_mode g = ''move'' \<and> is_left
          then (case move_start_x g of
                  None \<Rightarrow> Inl AttributeError
                | Some None \<Rightarrow>
                    if tool_mode g = ''draw'' \<and> track_type track = ''vocal''
                       \<and> f0_edited track \<noteq> None
                    then handle_draw g point is_left is_right else Inr g
                | Some (Some start_x) \<Rightarrow>
                    (case move_start_frame g of
                       None \<Rightarrow> Inl AttributeError
                     | Some start_fr \<Rightarrow>
                         let delta = fst point - start_x;
                             new_start = py_int (real_of_int start_fr + delta);
                             new_start = (if new_start < 0 then 0 else new_start)
                         in if new_start \<noteq> start_frame track
                            then Inr ((set_current_track g (track\<lparr>start_frame := new_start\<rparr>))
                                      \<lparr>status_label := TrackMoved new_start\<rparr>)
                            else Inr g))
          else if tool_mode g = ''draw'' \<and> track_type track = ''vocal''
                  \<and> f0_edited track \<noteq> None
          then handle_draw g point is_left is_right
          else Inr g)"

definition mouseReleaseEvent :: "gui \<Rightarrow> gui" where
  "mouseReleaseEvent g =
     (let g = (if tool_mode g = ''move'' then g\<lparr>move_start_x := Some None\<rparr> else g)
      in g\<lparr>last_mouse_pos := None\<rparr>)"

text \<open>
  An edit stroke with the draw tool: the button goes down at the first point, the mouse
  moves over further points with the button held, the button goes up. \<open>is_left\<close> tells
  the left button (draw) from the right button (erase).
\<close>

fun mouse_moves :: "gui \<Rightarrow> bool \<Rightarrow> (real \<times> real) list \<Rightarrow> error + gui" where
  "mouse_moves g is_left [] = Inr g"
| "mouse_moves g is_left (point # rest) =
     (case on_scene_mouse_move g is_left (\<not> is_left) point of
        Inl err \<Rightarrow> Inl err
      | Inr g' \<Rightarrow> mouse_moves g' is_left rest)"

definition edit_stroke :: "gui \<Rightarrow> bool \<Rightarrow> real \<times> real \<Rightarrow> (real \<times> real) list \<Rightarrow> error + gui" where
  "edit_stroke g is_left point rest =
     (case on_scene_mouse_click g False True (if is_left then LeftButton else RightButton)
             point of
        Inl err \<Rightarrow> Inl err
      | Inr g1 \<Rightarrow>
          (case mouse_moves g1 is_left rest of
             Inl err \<Rightarrow> Inl err
           | Inr g2 \<Rightarrow> Inr (mouseReleaseEvent g2)))"

subsection \<open>Mixing (lines 794-827)\<close>

text \<open>\<open>self.processor.config['hop_size'] if self.processor.config else 512\<close>\<close>

definition ui_hop_size :: "processor \<Rightarrow> error + int" where
  "ui_hop_size proc = (if config proc = [] then Inr 512 else config_hop_size proc)"

text \<open>Lines 796-799: the tracks that take part in the mix.\<close>

definition mix_participants :: "track list \<Rightarrow> track list" where
  "mix_participants ts =
     (let active_tracks = filter (\<lambda>t. \<not> muted t) ts;
          solo_tracks = filter solo ts
      in if solo_tracks \<noteq> [] then solo_tracks else active_tracks)"

text \<open>Lines 804-810: the length of the mix in samples.\<close>

fun mix_max_len :: "processor \<Rightarrow> track list \<Rightarrow> int \<Rightarrow> error + int" where
  "mix_max_len proc [] max_len = Inr max_len"
| "mix_max_len proc (track # rest) max_len =
     (case synthesized_audio track of
        None \<Rightarrow> mix_max_len proc rest max_len
      | Some audio \<Rightarrow>
          (case ui_hop_size proc of
             Inl err \<Rightarrow> Inl err
           | Inr hop_size \<Rightarrow>
               let start_sample = start_frame track * hop_size;
                   end_sample = start_sample + int (length audio)
               in mix_max_len proc rest (max max_len end_sample)))"

text \<open>
  \<open>xs[a:b] += v\<close> on numpy arrays: the slice bounds are normalised as for any slice; \<open>v\<close>
  must have the length of the slice, or length 1 (it is then broadcast); otherwise
  \<open>ValueError\<close>.
\<close>

definition np_add_slice :: "real list \<Rightarrow> int \<Rightarrow> int \<Rightarrow> real list \<Rightarrow> error + real list" where
  "np_add_slice xs a b v =
     (let n = int (length xs);
          a' = nat (slice_bound n a);
          len = nat (slice_bound n b - slice_bound n a);
          target = take len (drop a' xs)
      in if length v = len
         then Inr (take a' xs @ map2 (+) target v @ drop (a' + len) xs)
         else if length v = 1
         then Inr (take a' xs @ map (\<lambda>s. s + hd v) target @ drop (a' + len) xs)
         else Inl ValueError)"

text \<open>Lines 817-825: every participant with audio is added at its offset, scaled.\<close>

fun mix_add :: "processor \<Rightarrow> track list \<Rightarrow> real list \<Rightarrow> error + real list" where
  "mix_add proc [] mixed_audio = Inr mixed_audio"
| "mix_add proc (track # rest) mixed_audio =
     (case synthesized_audio track of
        None \<Rightarrow> mix_add proc rest mixed_audio
      | Some audio \<Rightarrow>
          (case ui_hop_size proc of
             Inl err \<Rightarrow> Inl err
           | Inr hop_size \<Rightarrow>
               let start_sample = start_frame track * hop_size;
                   l = int (length audio)
               in (case np_add_slice mixed_audio start_sample (start_sample + l)
                          (map (\<lambda>s. s * volume track) audio) of
                     Inl err \<Rightarrow> Inl err
                   | Inr mixed_audio' \<Rightarrow> mix_add proc rest mixed_audio')))"

text \<open>The result \<open>None\<close> of Python is \<open>None\<close>; a buffer is \<open>Some\<close>.\<close>

definition mix_tracks :: "gui \<Rightarrow> error + real list option" where
  "mix_tracks g =
     (let active_tracks = mix_participants (tracks g)
      in if active_tracks = [] then Inr None
         else (case mix_max_len (processor g) active_tracks 0 of
                 Inl err \<Rightarrow> Inl err
               | Inr max_len \<Rightarrow>
                   if max_len = 0 then Inr None
                   else (case mix_add (processor g) active_tracks
                                (replicate (nat max_len) 0) of
                           Inl err \<Rightarrow> Inl err
                         | Inr mixed_audio \<Rightarrow> Inr (Some mixed_audio))))"

subsection \<open>Opening a project (lines 911-930 and 934-953)\<close>






section \<open>The segment cache: \<open>Track.synthesize_segment\<close>\<close>

text \<open>
  Modelled from the spec: \<open>Track.synthesize_segment(processor, i)\<close>, which
  \<open>synthesize_audio_only\<close> calls for every dirty segment, is in \<open>track.py\<close>, a file that
  is not among the sources. The specification (section 4.5) gives its behaviour: it
  takes segment \<open>i\<close> of the track and \<open>f0_edited[start:end]\<close>, has the processor
  synthesize the segment from the track's spectral envelope, stores the trimmed
  waveform as the cached audio of the segment and clears its dirty flag; when synthesis
  fails the error is passed on, nothing is stored and the segment stays dirty. The
  track of the specification owns the spectral envelope and, per segment, the cached
  audio: they extend the record \<open>track\<close>, with the cached audio in a list parallel to
  \<open>segment_states\<close>. The specification leaves open what happens for an index out of
  range and for a track without pitch curve: the model answers with an error.
\<close>

record 'm synth_track = track +
  spectral_envelope :: "'m list"
  segment_cache :: "real list option list"

definition track_synthesize_segment ::
    "processor \<Rightarrow> 'm vocoder \<Rightarrow> 'm synth_track \<Rightarrow> nat \<Rightarrow> error + 'm synth_track" where
  "track_synthesize_segment proc vocoder tr i =
     (if \<not> (i < length (segments tr) \<and> i < length (segment_states tr)
              \<and> i < length (segment_cache tr))
      then Inl IndexError
      else case f0_edited tr of
             None \<Rightarrow> Inl TypeError
           | Some f0 \<Rightarrow>
               let (start, end) = segments tr ! i
               in (case synthesize_segment proc vocoder (spectral_envelope tr) (start, end)
                          (py_slice f0 start end) of
                     Inl err \<Rightarrow> Inl err
                   | Inr audio \<Rightarrow>
                       Inr (tr\<lparr>segment_states :=
                                  (segment_states tr)[i := (segment_states tr ! i)\<lparr>dirty := False\<rparr>],
                               segment_cache := (segment_cache tr)[i := Some audio]\<rparr>)))"

section \<open>Proof vocabulary and example states\<close>

text \<open>
  \<open>orig_covers\<close>: the original curve, when present, is at least as long as the edited
  one. \<open>draw_ready\<close>: the draw tool is active and the current track is a vocal track
  with a pitch curve, whose \<open>segment_states\<close> has an entry for every segment.
  \<open>history_depth\<close> is the size of the current track's undo stack, \<open>bump\<close> what one
  snapshot does to it under the bound of 16.
\<close>

definition orig_covers :: "pitch list option \<Rightarrow> nat \<Rightarrow> bool" where
  "orig_covers f0_orig n = (case f0_orig of None \<Rightarrow> True | Some orig \<Rightarrow> n \<le> length orig)"

definition draw_ready :: "gui \<Rightarrow> bool" where
  "draw_ready g =
     (tool_mode g = ''draw'' \<and>
      (case current_track g of
         None \<Rightarrow> False
       | Some t \<Rightarrow>
           track_type t = ''vocal'' \<and>
           length (segments t) \<le> length (segment_states t) \<and>
           (case f0_edited t of
              None \<Rightarrow> False
            | Some f0 \<Rightarrow> orig_covers (f0_original t) (length f0))))"

definition history_depth :: "gui \<Rightarrow> nat" where
  "history_depth g = (case current_track g of None \<Rightarrow> 0 | Some t \<Rightarrow> length (undo_stack t))"

definition bump :: "nat \<Rightarrow> nat" where
  "bump d = (if 16 \<le> d then d else Suc d)"

text \<open>
  \<open>track_end\<close>: the sample at which the waveform of a track ends in the mix (0 for a
  track without waveform). \<open>contribution\<close>: what a track adds to sample \<open>k\<close> of the mix,
  its waveform shifted by \<open>start_frame * hop_size\<close> samples and scaled by its volume.
\<close>

definition track_end :: "int \<Rightarrow> track \<Rightarrow> int" where
  "track_end hop t =
     (case synthesized_audio t of
        None \<Rightarrow> 0
      | Some audio \<Rightarrow> start_frame t * hop + int (length audio))"

definition contribution :: "int \<Rightarrow> track \<Rightarrow> nat \<Rightarrow> real" where
  "contribution hop t k =
     (case synthesized_audio t of
        None \<Rightarrow> 0
      | Some audio \<Rightarrow>
          let start = start_frame t * hop
          in if start \<le> int k \<and> int k < start + int (length audio)
             then audio ! nat (int k - start) * volume t else 0)"

text \<open>Concrete states on which the theorems are instantiated.\<close>

definition mel_one_loud :: mel_spec where
  "mel_one_loud =
     \<lparr>mel_bins = 2, mel_frames = 100, mel_value = (\<lambda>b t. if t = 0 then 1 else 0)\<rparr>"

definition mel_two_frames :: mel_spec where
  "mel_two_frames =
     \<lparr>mel_bins = 2, mel_frames = 2, mel_value = (\<lambda>b t. if t = 0 then 1 else 0)\<rparr>"

definition demo_track :: track where
  "demo_track =
     \<lparr>track_type = ''vocal'',
      f0_original = Some [Some 60, Some 61, None, Some 62],
      f0_edited = Some [Some 60, Some 61, None, Some 62],
      segments = [(0, 2), (2, 4)],
      segment_states = [\<lparr>dirty = False\<rparr>, \<lparr>dirty = False\<rparr>],
      undo_stack = [], redo_stack = [], shift_value = 0,
      muted = False, solo = False, volume = 1, start_frame = 0,
      synthesized_audio = None\<rparr>"

definition demo_gui :: gui where
  "demo_gui =
     \<lparr>processor = \<lparr>model_loaded = True, config = [(''hop_size'', 512)]\<rparr>,
      tracks = [demo_track], current_track_idx = 0, tool_mode = ''draw'',
      last_mouse_pos = None, move_start_x = None, move_start_frame = None,
      status_label = StatusOther, is_dirty = False\<rparr>"

definition mix_track_a :: track where
  "mix_track_a = demo_track\<lparr>synthesized_audio := Some [1, 1, 1]\<rparr>"

definition mix_track_b :: track where
  "mix_track_b = demo_track\<lparr>solo := True, volume := 1 / 2, synthesized_audio := Some [2, 4]\<rparr>"

definition mix_track_c :: track where
  "mix_track_c = demo_track\<lparr>muted := True, synthesized_audio := Some [5]\<rparr>"

definition mix_gui :: gui where
  "mix_gui = demo_gui\<lparr>tracks := [mix_track_a, mix_track_b, mix_track_c]\<rparr>"

definition mix_track_d :: track where
  "mix_track_d = demo_track\<lparr>volume := 1 / 2, synthesized_audio := Some [2, 4]\<rparr>"

definition duet_gui :: gui where
  "duet_gui = demo_gui\<lparr>tracks := [mix_track_a, mix_track_d]\<rparr>"



definition instrumental_track :: track where
  "instrumental_track = demo_track\<lparr>track_type := ''instrumental''\<rparr>"

definition instrumental_gui :: gui where
  "instrumental_gui = demo_gui\<lparr>tracks := [instrumental_track]\<rparr>"

definition demo_synth_track :: "unit synth_track" where
  "demo_synth_track =
     \<lparr>track_type = ''vocal'',
      f0_original = Some (replicate 1000 (Some 60)),
      f0_edited = Some (replicate 1000 (Some 60)),
      segments = [(10, 20)],
      segment_states = [\<lparr>dirty = True\<rparr>],
      undo_stack = [], redo_stack = [], shift_value = 0,
      muted = False, solo = False, volume = 1, start_frame = 0,
      synthesized_audio = None,
      spectral_envelope = replicate 1000 (),
      segment_cache = [None]\<rparr>"

definition demo_processor :: processor where
  "demo_processor = \<lparr>model_loaded = True, config = [(''hop_size'', 512)]\<rparr>"

section \<open>Properties of the pitch conversion\<close>

text \<open>
  Over the reals the two conversions are exact inverses on voiced frames, and the
  unvoiced marker and 0 Hz correspond. Rounding in floating-point arithmetic is outside
  this model.
\<close>

lemma midi_to_hz_hz_to_midi: "0 < hz \<Longrightarrow> midi_to_hz (hz_to_midi hz) = hz"
  by (simp add: midi_to_hz_def hz_to_midi_def powr_log_cancel)

lemma hz_to_midi_unvoiced: "hz \<le> 0 \<Longrightarrow> hz_to_midi hz = None"
  by (simp add: hz_to_midi_def)

lemma midi_to_hz_unvoiced: "midi_to_hz None = 0"
  by (simp add: midi_to_hz_def)

section \<open>Properties of the segmenter\<close>

subsection \<open>The loop\<close>

lemma find_segments_acc:
  "find_segments xs i st segs =
     (segs @ fst (find_segments xs i st []), snd (find_segments xs i st []))"
proof (induction xs arbitrary: i st segs)
  case Nil
  then show ?case by simp
next
  case (Cons a xs)
  show ?case
    using Cons.IH[of "i + 1" "Some i" segs] Cons.IH[of "i + 1" None "segs @ [(the st, i)]"]
      Cons.IH[of "i + 1" st segs] Cons.IH[of "i + 1" None "[(the st, i)]"]
    by (cases st; cases a) (simp_all add: prod_eq_iff)
qed

lemma runs_from_Nil: "runs_from [] i st = (case st of Some s \<Rightarrow> [(s, i)] | None \<Rightarrow> [])"
  by (simp add: runs_from_def split: option.splits)

lemma runs_from_Cons:
  "runs_from (a # xs) i st =
     (if a then runs_from xs (i + 1) (Some (case st of None \<Rightarrow> i | Some s \<Rightarrow> s))
      else (case st of None \<Rightarrow> [] | Some s \<Rightarrow> [(s, i)]) @ runs_from xs (i + 1) None)"
proof -
  have len: "i + int (length (a # xs)) = i + 1 + int (length xs)" by simp
  show ?thesis
    using find_segments_acc[of xs "i + 1" None "[(the st, i)]"]
    unfolding runs_from_def len
    by (cases st) (auto split: prod.splits option.splits)
qed

lemma runs_from_bounds:
  "(\<And>s. st = Some s \<Longrightarrow> s < i) \<Longrightarrow> (a, b) \<in> set (runs_from xs i st) \<Longrightarrow>
     (case st of None \<Rightarrow> i \<le> a | Some s \<Rightarrow> s \<le> a) \<and> a < b \<and> b \<le> i + int (length xs)"
proof (induction xs arbitrary: i st)
  case Nil
  then show ?case by (auto simp: runs_from_Nil split: option.splits)
next
  case (Cons x xs)
  show ?case
  proof (cases x)
    case True
    with Cons.prems have m: "(a, b) \<in> set (runs_from xs (i + 1) (Some (case st of None \<Rightarrow> i | Some s \<Rightarrow> s)))"
      by (simp add: runs_from_Cons)
    have "(case Some (case st of None \<Rightarrow> i | Some s \<Rightarrow> s) of None \<Rightarrow> i + 1 \<le> a | Some s \<Rightarrow> s \<le> a) \<and> a < b \<and> b \<le> i + 1 + int (length xs)"
      by (rule Cons.IH[OF _ m]) (use Cons.prems(1) in \<open>auto split: option.splits\<close>)
    then show ?thesis by (auto split: option.splits)
  next
    case False
    with Cons.prems have "(a, b) \<in> set (case st of None \<Rightarrow> [] | Some s \<Rightarrow> [(s, i)]) \<or> (a, b) \<in> set (runs_from xs (i + 1) None)"
      by (simp add: runs_from_Cons)
    then show ?thesis
    proof
      assume "(a, b) \<in> set (case st of None \<Rightarrow> [] | Some s \<Rightarrow> [(s, i)])"
      then show ?thesis using Cons.prems(1) by (auto split: option.splits)
    next
      assume m: "(a, b) \<in> set (runs_from xs (i + 1) None)"
      have "(case None of None \<Rightarrow> i + 1 \<le> a | Some s \<Rightarrow> s \<le> a) \<and> a < b \<and> b \<le> i + 1 + int (length xs)"
        by (rule Cons.IH[OF _ m]) simp
      then show ?thesis using Cons.prems(1) by (auto split: option.splits)
    qed
  qed
qed

lemma covered_iff: "covered segs k \<longleftrightarrow> (\<exists>(s, e)\<in>set segs. s \<le> k \<and> k < e)"
  by (auto simp: covered_def list_ex_iff)

lemma covered_append: "covered (xs @ ys) k \<longleftrightarrow> covered xs k \<or> covered ys k"
  by (auto simp: covered_def)

lemma runs_from_covered:
  "(\<And>s. st = Some s \<Longrightarrow> s \<le> i) \<Longrightarrow>
   covered (runs_from xs i st) k \<longleftrightarrow>
     (case st of None \<Rightarrow> False | Some s \<Rightarrow> s \<le> k \<and> k < i) \<or>
     (i \<le> k \<and> k < i + int (length xs) \<and> xs ! nat (k - i))"
proof (induction xs arbitrary: i st)
  case Nil
  then show ?case by (auto simp: runs_from_Nil covered_def split: option.splits)
next
  case (Cons x xs)
  have nth: "i < k \<Longrightarrow> (x # xs) ! nat (k - i) = xs ! nat (k - (i + 1))" for k
  proof -
    assume "i < k"
    then have "nat (k - i) = Suc (nat (k - (i + 1)))" by arith
    then show ?thesis by simp
  qed
  show ?case
  proof (cases x)
    case True
    have "covered (runs_from xs (i + 1) (Some (case st of None \<Rightarrow> i | Some s \<Rightarrow> s))) k \<longleftrightarrow>
       (case Some (case st of None \<Rightarrow> i | Some s \<Rightarrow> s) of None \<Rightarrow> False | Some s \<Rightarrow> s \<le> k \<and> k < i + 1) \<or>
       (i + 1 \<le> k \<and> k < i + 1 + int (length xs) \<and> xs ! nat (k - (i + 1)))"
      by (rule Cons.IH) (use Cons.prems in \<open>auto split: option.splits\<close>)
    then show ?thesis
      using True Cons.prems nth[of k]
      by (cases "k = i") (auto simp: runs_from_Cons split: option.splits)
  next
    case False
    have "covered (runs_from xs (i + 1) None) k \<longleftrightarrow>
       (case None :: int option of None \<Rightarrow> False | Some s \<Rightarrow> s \<le> k \<and> k < i + 1) \<or>
       (i + 1 \<le> k \<and> k < i + 1 + int (length xs) \<and> xs ! nat (k - (i + 1)))"
      by (rule Cons.IH) simp
    then show ?thesis
      using False Cons.prems nth[of k]
      by (cases "k = i") (auto simp: runs_from_Cons covered_append covered_def split: option.splits)
  qed
qed

lemma runs_from_sorted:
  "(\<And>s. st = Some s \<Longrightarrow> s < i) \<Longrightarrow> sorted_wrt seg_before (runs_from xs i st)"
proof (induction xs arbitrary: i st)
  case Nil
  then show ?case by (auto simp: runs_from_Nil split: option.splits)
next
  case (Cons x xs)
  show ?case
  proof (cases x)
    case True
    have "sorted_wrt seg_before (runs_from xs (i + 1) (Some (case st of None \<Rightarrow> i | Some s \<Rightarrow> s)))"
      by (rule Cons.IH) (use Cons.prems in \<open>auto split: option.splits\<close>)
    then show ?thesis using True by (simp add: runs_from_Cons)
  next
    case False
    have srt: "sorted_wrt seg_before (runs_from xs (i + 1) None)"
      by (rule Cons.IH) simp
    have later: "i < fst q" if "q \<in> set (runs_from xs (i + 1) None)" for q
      using runs_from_bounds[of None "i + 1" "fst q" "snd q" xs] that by simp
    have "\<forall>q\<in>set (runs_from xs (i + 1) None). seg_before (s, i) q" for s
      using later by (auto simp: seg_before_def)
    then show ?thesis
      using False srt by (cases st) (simp_all add: runs_from_Cons)
  qed
qed

lemma runs_from_empty_iff: "runs_from m 0 None = [] \<longleftrightarrow> True \<notin> set m"
proof
  assume e: "runs_from m 0 None = []"
  show "True \<notin> set m"
  proof
    assume "True \<in> set m"
    then obtain j where j: "j < length m" "m ! j" by (auto simp: in_set_conv_nth)
    have "covered (runs_from m 0 None) (int j)"
      using j by (subst runs_from_covered) simp_all
    with e show False by (simp add: covered_def)
  qed
next
  assume n: "True \<notin> set m"
  show "runs_from m 0 None = []"
  proof (cases "runs_from m 0 None")
    case Nil
    then show ?thesis .
  next
    case (Cons q qs)
    then have mem: "(fst q, snd q) \<in> set (runs_from m 0 None)" by simp
    have b: "0 \<le> fst q \<and> fst q < snd q \<and> snd q \<le> int (length m)"
      using runs_from_bounds[OF _ mem] by simp
    have "covered (runs_from m 0 None) (fst q)"
      using mem b by (auto simp: covered_iff)
    moreover have "covered (runs_from m 0 None) (fst q) \<longleftrightarrow>
        0 \<le> fst q \<and> fst q < int (length m) \<and> m ! nat (fst q)"
      by (subst runs_from_covered) simp_all
    ultimately have "m ! nat (fst q)" "nat (fst q) < length m"
      by auto
    then have "True \<in> set m" by (metis nth_mem)
    with n show ?thesis by simp
  qed
qed

lemma segments_of_mask_runs:
  "segments_of_mask m =
     (if True \<in> set m then runs_from m 0 None else [(0, int (length m))])"
proof -
  have clamp: "map (\<lambda>(start, end). (max 0 start, max start end)) (runs_from m 0 None) = runs_from m 0 None"
  proof (rule map_idI)
    fix q assume "q \<in> set (runs_from m 0 None)"
    then have "(fst q, snd q) \<in> set (runs_from m 0 None)" by simp
    from runs_from_bounds[OF _ this]
    show "(case q of (start, end) \<Rightarrow> (max 0 start, max start end)) = q"
      by (cases q) auto
  qed
  have "segments_of_mask m =
      map (\<lambda>(start, end). (max 0 start, max start end))
        (if runs_from m 0 None = [] then [(0, int (length m))] else runs_from m 0 None)"
    by (simp add: segments_of_mask_def runs_from_def split: prod.splits option.splits)
  then show ?thesis
    using clamp runs_from_empty_iff[of m] by (auto simp: max_def)
qed

lemma dilated_at_iff:
  "dilated_at inp n p \<longleftrightarrow>
     (\<exists>c<n. 0 \<le> int p + int c - int ((n - 1) div 2) \<and>
            int p + int c - int ((n - 1) div 2) < int (length inp) \<and>
            inp ! nat (int p + int c - int ((n - 1) div 2)))"
  by (auto simp: dilated_at_def list_ex_iff Let_def)

lemma dilated_at_self: "0 < n \<Longrightarrow> p < length inp \<Longrightarrow> inp ! p \<Longrightarrow> dilated_at inp n p"
  unfolding dilated_at_iff by (rule exI[of _ "(n - 1) div 2"]) auto

lemma binary_dilation_length: "binary_dilation inp n = Inr d \<Longrightarrow> length d = length inp"
  by (auto simp: binary_dilation_def split: if_splits)

lemma binary_dilation_active:
  assumes "binary_dilation inp n = Inr d"
  shows "True \<in> set d \<longleftrightarrow> True \<in> set inp"
proof -
  from assms have n: "0 < n" and d: "d = map (dilated_at inp n) [0..<length inp]"
    by (auto simp: binary_dilation_def split: if_splits)
  show ?thesis
  proof
    assume "True \<in> set d"
    then obtain p where "dilated_at inp n p" using d by auto
    then obtain k where "k < length inp" "inp ! k"
      unfolding dilated_at_iff by (metis nat_less_iff nat_int)
    then show "True \<in> set inp" by (metis nth_mem)
  next
    assume "True \<in> set inp"
    then obtain p where "p < length inp" "inp ! p" by (auto simp: in_set_conv_nth)
    then have "dilated_at inp n p" "p < length inp"
      using n by (simp_all add: dilated_at_self)
    then have "\<exists>q<length inp. dilated_at inp n q" by blast
    then show "True \<in> set d" unfolding d by (simp add: image_iff Bex_def)
  qed
qed

lemma is_speech_mask_length: "is_speech_mask energy thr = Inr m \<Longrightarrow> length m = length energy"
  by (auto simp: is_speech_mask_def Let_def split: sum.splits)

subsection \<open>A track with one loud frame, at the default parameters\<close>

lemma energy_to_db_one: "energy_to_db 1 = 0"
  by (simp add: energy_to_db_def)

lemma energy_to_db_zero: "energy_to_db 0 = - 100"
proof -
  have "log 10 (1 / 100000) = - log 10 (10 ^ 5)"
    by (simp add: log_divide)
  also have "\<dots> = - 5"
    by (subst log_pow_cancel) simp_all
  finally show ?thesis by (simp add: energy_to_db_def)
qed

lemma np_max_head:
  "\<forall>y\<in>set ys. y \<le> x \<Longrightarrow> np_max (Some x # map Some ys) = Inr (Some x)"
proof -
  have "\<forall>y\<in>set ys. y \<le> x \<Longrightarrow> fold nan_max (map Some ys) (Some x) = Some x"
    by (induction ys) (simp_all add: nan_max_def max_absorb1)
  then show "\<forall>y\<in>set ys. y \<le> x \<Longrightarrow> np_max (Some x # map Some ys) = Inr (Some x)"
    by (simp add: np_max_def)
qed

lemma is_speech_mask_one_loud:
  "is_speech_mask (Some 1 # replicate 99 (Some 0)) (- 60) = Inr (True # replicate 99 False)"
  using np_max_head[of "replicate 99 (- 100)" 0]
  by (simp add: is_speech_mask_def energy_to_db_one energy_to_db_zero above_threshold_def)

lemma frame_energy_one_loud:
  "frame_energy mel_one_loud = Inr (PerFrame (Some 1 # replicate 99 (Some 0)))"
proof -
  have "map (\<lambda>t. np_mean (map (\<lambda>b. if t = 0 then 1 else 0) [0..<2])) [0..<100]
          = Some 1 # replicate 99 (Some (0::real))"
    by (rule nth_equalityI) (auto simp: np_mean_def nth_Cons' upt_rec numeral_2_eq_2)
  then show ?thesis by (simp add: frame_energy_def mel_one_loud_def)
qed

lemma frame_energy_two_frames:
  "frame_energy mel_two_frames = Inr (PerFrame [Some 1, Some 0])"
  by (simp add: frame_energy_def mel_two_frames_def np_mean_def upt_rec numeral_2_eq_2)

lemma dilated_at_first:
  assumes "p < 100"
  shows "dilated_at (True # replicate 99 False) 100 p \<longleftrightarrow> p < 50"
proof
  assume "dilated_at (True # replicate 99 False) 100 p"
  then obtain c where c: "c < 100" "0 \<le> int p + int c - 49" "int p + int c - 49 < 100"
      "(True # replicate 99 False) ! nat (int p + int c - 49)"
    by (auto simp: dilated_at_iff)
  then have "nat (int p + int c - 49) = 0"
    by (auto simp: nth_Cons' split: if_splits)
  with c show "p < 50" by arith
next
  assume "p < 50"
  then show "dilated_at (True # replicate 99 False) 100 p"
    unfolding dilated_at_iff by (intro exI[of _ "49 - p"]) (auto simp: of_nat_diff)
qed

lemma binary_dilation_one_loud: "binary_dilation (True # replicate 99 False) 100 = Inr (replicate 50 True @ replicate 50 False)"
proof -
  have "map (dilated_at (True # replicate 99 False) 100) [0..<100] = replicate 50 True @ replicate 50 False"
    by (rule nth_equalityI) (auto simp: dilated_at_first nth_append)
  then show ?thesis by (simp add: binary_dilation_def)
qed

lemma segments_of_mask_one_loud: "segments_of_mask (replicate 50 True @ replicate 50 False) = [(0, 50)]"
  by code_simp

lemma is_speech_mask_threshold_zero: "is_speech_mask [Some 1, Some 0] 0 = Inr [False, False]"
  using np_max_head[of "[- 100]" 0]
  by (simp add: is_speech_mask_def energy_to_db_one energy_to_db_zero above_threshold_def)

lemma binary_dilation_silent: "binary_dilation [False, False] 100 = Inr [False, False]"
  by (simp add: binary_dilation_def dilated_at_iff nth_Cons' upt_rec)

subsection \<open>From the dilated mask to the segments\<close>

lemma segments_of_dilated_mask:
  assumes "binary_dilation is_speech n = Inr dilated"
  shows "if True \<in> set is_speech
      then (\<forall>k. covered (segments_of_mask dilated) k \<longleftrightarrow>
              0 \<le> k \<and> k < int (length is_speech) \<and> dilated ! nat k) \<and>
           list_all (\<lambda>(s, e). 0 \<le> s \<and> s < e \<and> e \<le> int (length is_speech))
             (segments_of_mask dilated) \<and>
           sorted_wrt seg_before (segments_of_mask dilated)
      else segments_of_mask dilated = [(0, int (length is_speech))]"
proof -
  have len: "length dilated = length is_speech"
    using assms by (simp add: binary_dilation_length)
  have act: "True \<in> set dilated \<longleftrightarrow> True \<in> set is_speech"
    by (rule binary_dilation_active[OF assms])
  show ?thesis
  proof (cases "True \<in> set is_speech")
    case False
    then show ?thesis using act len by (simp add: segments_of_mask_runs)
  next
    case True
    then have eq: "segments_of_mask dilated = runs_from dilated 0 None"
      using act by (simp add: segments_of_mask_runs)
    have c: "covered (runs_from dilated 0 None) k \<longleftrightarrow>
               0 \<le> k \<and> k < int (length is_speech) \<and> dilated ! nat k" for k
      by (subst runs_from_covered) (simp_all add: len)
    have b: "list_all (\<lambda>(s, e). 0 \<le> s \<and> s < e \<and> e \<le> int (length is_speech))
               (runs_from dilated 0 None)"
      unfolding list_all_iff
    proof
      fix q assume "q \<in> set (runs_from dilated 0 None)"
      then have "(fst q, snd q) \<in> set (runs_from dilated 0 None)" by simp
      from runs_from_bounds[OF _ this]
      show "case q of (s, e) \<Rightarrow> 0 \<le> s \<and> s < e \<and> e \<le> int (length is_speech)"
        by (cases q) (simp add: len)
    qed
    have s: "sorted_wrt seg_before (runs_from dilated 0 None)"
      by (rule runs_from_sorted) simp
    show ?thesis using True eq c b s by simp
  qed
qed

subsection \<open>A mel without a frame axis after the squeeze\<close>

lemma segment_audio_no_frame_axis:
  "mel_bins mel = 1 \<or> mel_frames mel = 1 \<Longrightarrow>
     \<exists>err. segment_audio mel threshold_db min_silence_frames = Inl err"
  by (auto simp: segment_audio_def frame_energy_def Let_def)

lemma frame_energy_per_frame:
  assumes "mel_bins mel \<noteq> 1" and "mel_frames mel \<noteq> 1"
  shows "\<exists>energy. frame_energy mel = Inr (PerFrame energy) \<and> length energy = mel_frames mel"
  using assms by (simp add: frame_energy_def Let_def)

lemma is_speech_mask_returns:
  "energy \<noteq> [] \<Longrightarrow> \<exists>m. is_speech_mask energy threshold_db = Inr m \<and> length m = length energy"
  by (cases energy) (simp_all add: is_speech_mask_def np_max_def Let_def)

subsection \<open>Claim C1\<close>

text \<open>
  C1, as amended. For a mel with at least two frames and a number of bins other than
  one (so that the energy is a curve with one value per frame), and a non-empty
  structuring element, \<open>_segment_audio\<close> returns segments, and they are the maximal runs
  of the dilated activity mask: when some frame is above the threshold, a frame lies in
  a segment exactly when it is active after dilation, every segment is non-empty and
  lies inside \<open>[0, total_frames)\<close>, and the segments are in ascending order with at least
  one inactive frame between neighbours (so frames that stay inactive belong to no
  segment). When no frame is above the threshold, exactly one segment
  \<open>(0, total_frames)\<close> is returned.
\<close>

theorem segment_audio_active_runs:
  assumes "mel_bins mel \<noteq> 1" and "2 \<le> mel_frames mel" and "0 < min_silence_frames"
  shows "\<exists>energy is_speech dilated segs.
     frame_energy mel = Inr (PerFrame energy) \<and> length energy = mel_frames mel \<and>
     is_speech_mask energy threshold_db = Inr is_speech \<and>
     binary_dilation is_speech min_silence_frames = Inr dilated \<and>
     segment_audio mel threshold_db min_silence_frames = Inr segs \<and>
     (if True \<in> set is_speech
      then (\<forall>k. covered segs k \<longleftrightarrow> 0 \<le> k \<and> k < int (mel_frames mel) \<and> dilated ! nat k) \<and>
           list_all (\<lambda>(s, e). 0 \<le> s \<and> s < e \<and> e \<le> int (mel_frames mel)) segs \<and>
           sorted_wrt seg_before segs
      else segs = [(0, int (mel_frames mel))])"
proof -
  obtain energy where e: "frame_energy mel = Inr (PerFrame energy)"
      "length energy = mel_frames mel"
    using frame_energy_per_frame[of mel] assms(1,2) by auto
  then have "energy \<noteq> []" using assms(2) by auto
  then obtain is_speech where m: "is_speech_mask energy threshold_db = Inr is_speech"
      "length is_speech = length energy"
    using is_speech_mask_returns by blast
  obtain dilated where d: "binary_dilation is_speech min_silence_frames = Inr dilated"
    using assms(3) by (simp add: binary_dilation_def)
  have sa: "segment_audio mel threshold_db min_silence_frames = Inr (segments_of_mask dilated)"
    by (simp add: segment_audio_def e(1) m(1) d)
  have len: "length is_speech = mel_frames mel" using m(2) e(2) by simp
  note runs = segments_of_dilated_mask[OF d, unfolded len]
  show ?thesis
    by (rule exI[of _ energy], rule exI[of _ is_speech], rule exI[of _ dilated],
        rule exI[of _ "segments_of_mask dilated"]) (use e m(1) d sa runs in simp)
qed

theorem segment_audio_active_runs_witness:
  "mel_bins mel_one_loud \<noteq> 1 \<and> 2 \<le> mel_frames mel_one_loud \<and>
   (\<exists>segs. segment_audio mel_one_loud (- 60) 100 = Inr segs \<and>
      (\<forall>k. covered segs k \<longleftrightarrow>
         0 \<le> k \<and> k < 100 \<and> (replicate 50 True @ replicate 50 False) ! nat k) \<and>
      list_all (\<lambda>(s, e). 0 \<le> s \<and> s < e \<and> e \<le> 100) segs \<and>
      sorted_wrt seg_before segs) \<and>
   mel_bins mel_two_frames \<noteq> 1 \<and> 2 \<le> mel_frames mel_two_frames \<and>
   segment_audio mel_two_frames 0 100 = Inr [(0, 2)]"
proof -
  have a: "mel_bins mel_one_loud \<noteq> 1" "2 \<le> mel_frames mel_one_loud" "mel_frames mel_one_loud = 100"
    by (simp_all add: mel_one_loud_def)
  have b: "mel_bins mel_two_frames \<noteq> 1" "2 \<le> mel_frames mel_two_frames" "mel_frames mel_two_frames = 2"
    by (simp_all add: mel_two_frames_def)
  have n: "(0::nat) < 100" by simp
  from segment_audio_active_runs[OF a(1,2) n, of "- 60"]
  have one: "\<exists>segs. segment_audio mel_one_loud (- 60) 100 = Inr segs \<and>
      (\<forall>k. covered segs k \<longleftrightarrow>
         0 \<le> k \<and> k < 100 \<and> (replicate 50 True @ replicate 50 False) ! nat k) \<and>
      list_all (\<lambda>(s, e). 0 \<le> s \<and> s < e \<and> e \<le> 100) segs \<and>
      sorted_wrt seg_before segs"
    by (auto simp: frame_energy_one_loud is_speech_mask_one_loud binary_dilation_one_loud a(3))
  from segment_audio_active_runs[OF b(1,2) n, of 0]
  have two: "segment_audio mel_two_frames 0 100 = Inr [(0, 2)]"
    by (auto simp: frame_energy_two_frames is_speech_mask_threshold_zero b(3))
  show ?thesis using a(1,2) b(1,2) one two by simp
qed

text \<open>
  The claim as stated fails: with the default threshold of -60 dB and the default
  structuring element of 100 frames, a track of 100 frames whose first frame alone is
  loud yields the single segment \<open>(0, 50)\<close>, which does not tile \<open>[0, 100)\<close>.
\<close>

theorem segment_audio_gap_counterexample:
  "segment_audio mel_one_loud (- 60) 100 = Inr [(0, 50)] \<and>
   \<not> tiles_from 0 [(0, 50)] 100"
  by (simp add: segment_audio_def frame_energy_one_loud is_speech_mask_one_loud
      binary_dilation_one_loud segments_of_mask_one_loud)

section \<open>Properties of padded synthesis\<close>

lemma py_slice_in_range:
  "0 \<le> a \<Longrightarrow> a \<le> b \<Longrightarrow> b \<le> int (length xs) \<Longrightarrow>
     py_slice xs a b = take (nat (b - a)) (drop (nat a) xs)"
  by (simp add: py_slice_def slice_bound_def Let_def)

lemma length_py_slice_in_range:
  "0 \<le> a \<Longrightarrow> a \<le> b \<Longrightarrow> b \<le> int (length xs) \<Longrightarrow>
     int (length (py_slice xs a b)) = b - a"
  by (simp add: py_slice_in_range)

lemma fit_f0_segment_eq:
  "0 \<le> n \<Longrightarrow>
     fit_f0_segment seg n = Inr (take (nat n) seg @ replicate (nat n - length seg) None)"
  by (auto simp: fit_f0_segment_def np_pad_def py_slice_def slice_bound_def Let_def nat_diff_distrib')

lemma vocoder_input_eq:
  assumes "0 \<le> start" "start \<le> end" "end \<le> int (length mel)"
  shows "vocoder_input mel (start, end) f0 =
     Inr (take (nat (min (int (length mel)) (end + 64) - max 0 (start - 64)))
            (drop (nat (max 0 (start - 64))) mel),
          replicate (nat (start - max 0 (start - 64))) 0 @
          map midi_to_hz (take (nat (end - start)) f0 @
                          replicate (nat (end - start) - length f0) None) @
          replicate (nat (min (int (length mel)) (end + 64) - end)) 0)"
proof -
  have r: "0 \<le> max 0 (start - 64)" "max 0 (start - 64) \<le> min (int (length mel)) (end + 64)"
      "min (int (length mel)) (end + 64) \<le> int (length mel)"
      "\<not> start < max 0 (start - 64)" "\<not> min (int (length mel)) (end + 64) < end"
    using assms by auto
  show ?thesis
    using assms r
    by (simp add: vocoder_input_def padded_range_def Let_def fit_f0_segment_eq np_pad_def
        py_slice_in_range midi_to_hz_def)
qed

lemma length_trim_padding:
  assumes "0 \<le> pre" "0 \<le> post" "0 < n" "0 < hop"
    and "int (length audio) = (pre + n + post) * hop"
  shows "int (length (trim_padding audio pre post hop)) = n * hop"
proof -
  have a: "int (length audio) - post * hop = (pre + n) * hop"
    using assms(5) by (simp add: algebra_simps)
  have "pre * hop < (pre + n) * hop"
    using assms by (simp add: algebra_simps)
  moreover have "0 \<le> pre * hop" "(pre + n) * hop \<le> int (length audio)"
    using assms by (simp_all add: algebra_simps)
  ultimately show ?thesis
    unfolding trim_padding_def Let_def a
    by (simp add: length_py_slice_in_range algebra_simps)
qed

lemma trim_padding_slice:
  assumes "0 \<le> pre" "0 \<le> post" "0 \<le> hop"
    and "pre * hop < int (length audio) - post * hop"
  shows "trim_padding audio pre post hop =
     take (nat (int (length audio) - post * hop - pre * hop)) (drop (nat (pre * hop)) audio)"
proof -
  have "0 \<le> pre * hop" "int (length audio) - post * hop \<le> int (length audio)"
    using assms by simp_all
  then show ?thesis
    using assms(4) by (simp add: trim_padding_def Let_def py_slice_in_range)
qed

subsection \<open>Claim C2\<close>

text \<open>
  C2. For a segment \<open>(start, end)\<close> with \<open>0 \<le> start \<le> end \<le> total_frames\<close> the padded
  window is \<open>p_start = max 0 (start - 64)\<close>, \<open>p_end = min total_frames (end + 64)\<close>; the
  vocoder receives the frames \<open>[p_start, p_end)\<close> of the mel and a frequency curve of the
  same length. When its output has \<open>(p_end - p_start) * hop_size\<close> samples, the segment is
  non-empty and the hop size positive, the waveform returned is the part of the output
  that starts at sample \<open>(start - p_start) * hop_size\<close> and has exactly
  \<open>(end - start) * hop_size\<close> samples. In general the waveform returned is the part of
  the output between \<open>trim_start\<close> and \<open>trim_end\<close>, and whenever \<open>trim_end \<le> trim_start\<close>
  it is the untrimmed output. \<open>Track.synthesize_segment\<close>, on segment \<open>i\<close> of a track
  with this mel, caches that same waveform for the segment and clears its dirty flag,
  leaving the other segments alone.
\<close>

theorem synthesize_segment_padded_trim:
  fixes voc :: "'m list \<Rightarrow> real list \<Rightarrow> real list"
    and seg_start seg_end :: int and mel :: "'m list"
    and tr :: "'m synth_track"
  defines "p_start \<equiv> max 0 (seg_start - 64)"
    and "p_end \<equiv> min (int (length mel)) (seg_end + 64)"
  assumes "model_loaded proc" and "config_hop_size proc = Inr hop"
    and "0 \<le> seg_start" and "seg_start \<le> seg_end" and "seg_end \<le> int (length mel)"
  shows "padded_range (int (length mel)) (seg_start, seg_end) = (p_start, p_end) \<and>
    (\<exists>mel_slice f0_hz audio res.
       vocoder_input mel (seg_start, seg_end) f0_segment = Inr (mel_slice, f0_hz) \<and>
       mel_slice = take (nat (p_end - p_start)) (drop (nat p_start) mel) \<and>
       int (length mel_slice) = p_end - p_start \<and>
       length f0_hz = length mel_slice \<and>
       audio = voc mel_slice f0_hz \<and>
       synthesize_segment proc (\<lambda>m f. Inr (voc m f)) mel (seg_start, seg_end) f0_segment = Inr res \<and>
       (int (length audio) = (p_end - p_start) * hop \<and> seg_start < seg_end \<and> 0 < hop
          \<longrightarrow> int (length res) = (seg_end - seg_start) * hop \<and>
              res = take (nat ((seg_end - seg_start) * hop))
                      (drop (nat ((seg_start - p_start) * hop)) audio)) \<and>
       (0 \<le> hop \<and> (seg_start - p_start) * hop < int (length audio) - (p_end - seg_end) * hop
          \<longrightarrow> res = take (nat (int (length audio) - (p_end - seg_end) * hop
                                   - (seg_start - p_start) * hop))
                        (drop (nat ((seg_start - p_start) * hop)) audio)) \<and>
       (int (length audio) - (p_end - seg_end) * hop \<le> (seg_start - p_start) * hop
          \<longrightarrow> res = audio) \<and>
       (i < length (segments tr) \<and> i < length (segment_states tr) \<and>
        i < length (segment_cache tr) \<and> segments tr ! i = (seg_start, seg_end) \<and>
        spectral_envelope tr = mel \<and> f0_edited tr = Some curve \<and>
        f0_segment = py_slice curve seg_start seg_end
          \<longrightarrow> (\<exists>tr'. track_synthesize_segment proc (\<lambda>m f. Inr (voc m f)) tr i = Inr tr' \<and>
                 segment_cache tr' ! i = Some res \<and>
                 \<not> dirty (segment_states tr' ! i) \<and>
                 (\<forall>j. j \<noteq> i \<longrightarrow> segment_cache tr' ! j = segment_cache tr ! j \<and>
                                  segment_states tr' ! j = segment_states tr ! j))))"
proof -
  have r: "0 \<le> p_start" "p_start \<le> seg_start" "seg_end \<le> p_end" "p_end \<le> int (length mel)"
    using assms by (auto simp: p_start_def p_end_def)
  have pr: "padded_range (int (length mel)) (seg_start, seg_end) = (p_start, p_end)"
    by (simp add: padded_range_def p_start_def p_end_def)
  define mel_slice where "mel_slice = take (nat (p_end - p_start)) (drop (nat p_start) mel)"
  define f0_hz where "f0_hz = replicate (nat (seg_start - p_start)) 0 @
          map midi_to_hz (take (nat (seg_end - seg_start)) f0_segment @
                          replicate (nat (seg_end - seg_start) - length f0_segment) None) @
          replicate (nat (p_end - seg_end)) 0"
  define audio where "audio = voc mel_slice f0_hz"
  define res where "res = trim_padding audio (seg_start - p_start) (p_end - seg_end) hop"
  have vi: "vocoder_input mel (seg_start, seg_end) f0_segment = Inr (mel_slice, f0_hz)"
    using vocoder_input_eq[OF assms(5,6,7), of f0_segment]
    by (simp add: mel_slice_def f0_hz_def p_start_def p_end_def)
  have lm: "int (length mel_slice) = p_end - p_start"
    using r assms by (simp add: mel_slice_def)
  have lf: "length f0_hz = length mel_slice"
  proof -
    have "int (length f0_hz) = p_end - p_start"
      using r assms by (simp add: f0_hz_def)
    with lm show ?thesis by simp
  qed
  have syn: "synthesize_segment proc (\<lambda>m f. Inr (voc m f)) mel (seg_start, seg_end) f0_segment = Inr res"
    using assms(3,4) by (simp add: synthesize_segment_def vi pr audio_def res_def)
  have slice: "res = take (nat (int (length audio) - (p_end - seg_end) * hop
                                   - (seg_start - p_start) * hop))
                        (drop (nat ((seg_start - p_start) * hop)) audio)"
    if "0 \<le> hop" "(seg_start - p_start) * hop < int (length audio) - (p_end - seg_end) * hop"
    unfolding res_def by (rule trim_padding_slice) (use r that in simp_all)
  have len: "int (length res) = (seg_end - seg_start) * hop \<and>
              res = take (nat ((seg_end - seg_start) * hop))
                      (drop (nat ((seg_start - p_start) * hop)) audio)"
    if c: "int (length audio) = (p_end - p_start) * hop" "seg_start < seg_end" "0 < hop"
  proof -
    have d: "int (length audio) - (p_end - seg_end) * hop - (seg_start - p_start) * hop
               = (seg_end - seg_start) * hop"
      using c(1) by (simp add: algebra_simps)
    have pos: "0 < (seg_end - seg_start) * hop" using c(2,3) by simp
    have "(seg_start - p_start) * hop < int (length audio) - (p_end - seg_end) * hop"
      using d pos by linarith
    from slice[OF _ this] c(3) have e: "res = take (nat ((seg_end - seg_start) * hop))
                      (drop (nat ((seg_start - p_start) * hop)) audio)"
      unfolding d by simp
    have "int (length res) = (seg_end - seg_start) * hop"
      unfolding res_def
    proof (rule length_trim_padding)
      show "int (length audio) = (seg_start - p_start + (seg_end - seg_start) + (p_end - seg_end)) * hop"
        using c by simp
    qed (use r c in simp_all)
    with e show ?thesis by simp
  qed
  have untrimmed: "res = audio"
    if "int (length audio) - (p_end - seg_end) * hop \<le> (seg_start - p_start) * hop"
    using that by (simp add: trim_padding_def res_def)
  have cached: "\<exists>tr'. track_synthesize_segment proc (\<lambda>m f. Inr (voc m f)) tr i = Inr tr' \<and>
                 segment_cache tr' ! i = Some res \<and>
                 \<not> dirty (segment_states tr' ! i) \<and>
                 (\<forall>j. j \<noteq> i \<longrightarrow> segment_cache tr' ! j = segment_cache tr ! j \<and>
                                  segment_states tr' ! j = segment_states tr ! j)"
    if "i < length (segments tr)" "i < length (segment_states tr)"
      "i < length (segment_cache tr)" "segments tr ! i = (seg_start, seg_end)"
      "spectral_envelope tr = mel" "f0_edited tr = Some curve"
      "f0_segment = py_slice curve seg_start seg_end"
    using that syn by (simp add: track_synthesize_segment_def)
  show ?thesis
    using pr vi lm lf syn len slice untrimmed cached audio_def mel_slice_def by blast
qed


theorem synthesize_segment_padded_trim_witness:
  "padded_range 1000 (10, 20) = (0, 84) \<and>
   (\<exists>res tr'.
      synthesize_segment demo_processor (\<lambda>m f. Inr (map real [0..<length m * 512]))
        (replicate 1000 ()) (10, 20) (replicate 10 (Some 60)) = Inr res \<and>
      length res = 5120 \<and>
      res = take 5120 (drop 5120 (map real [0..<43008])) \<and>
      track_synthesize_segment demo_processor (\<lambda>m f. Inr (map real [0..<length m * 512]))
        demo_synth_track 0 = Inr tr' \<and>
      segment_cache tr' ! 0 = Some res \<and>
      \<not> dirty (segment_states tr' ! 0))"
proof -
  have sl: "replicate 10 (Some 60) = py_slice (replicate 1000 (Some (60::real))) 10 20"
    by (simp add: py_slice_def slice_bound_def)
  have h: "model_loaded demo_processor" "config_hop_size demo_processor = Inr 512"
    by (simp_all add: demo_processor_def config_hop_size_def)
  have t: "0 < length (segments demo_synth_track)" "0 < length (segment_states demo_synth_track)"
    "0 < length (segment_cache demo_synth_track)" "segments demo_synth_track ! 0 = (10, 20)"
    "spectral_envelope demo_synth_track = replicate 1000 ()"
    "f0_edited demo_synth_track = Some (replicate 1000 (Some 60))"
    by (simp_all add: demo_synth_track_def)
  show ?thesis
    using synthesize_segment_padded_trim[where proc = demo_processor and hop = 512
        and seg_start = 10 and seg_end = 20 and mel = "replicate 1000 ()"
        and f0_segment = "replicate 10 (Some 60)" and voc = "\<lambda>m f. map real [0..<length m * 512]"
        and tr = demo_synth_track and i = 0 and curve = "replicate 1000 (Some 60)",
        OF h] t sl
    by simp blast
qed

subsection \<open>Claim C7\<close>

text \<open>
  C7, as amended. The pitch slice passed for segment \<open>(start, end)\<close> is brought to length
  \<open>end - start\<close> before use: it is truncated when too long, and padded at the end with
  the unvoiced marker NaN when too short (these frames reach the vocoder as 0 Hz); the
  slice used, between the context padding, has length exactly \<open>end - start\<close>.
\<close>

theorem fit_f0_segment_sentinel_padded:
  fixes seg_start seg_end :: int and mel :: "'m list"
  assumes "0 \<le> seg_start" and "seg_start \<le> seg_end" and "seg_end \<le> int (length mel)"
  shows "\<exists>fitted mel_slice.
     fit_f0_segment f0 (seg_end - seg_start) = Inr fitted \<and>
     int (length fitted) = seg_end - seg_start \<and>
     (\<forall>i<length fitted. fitted ! i = (if i < length f0 then f0 ! i else None)) \<and>
     (\<forall>i<length fitted. length f0 \<le> i \<longrightarrow> midi_to_hz (fitted ! i) = 0) \<and>
     vocoder_input mel (seg_start, seg_end) f0 =
       Inr (mel_slice,
            replicate (nat (seg_start - max 0 (seg_start - 64))) 0 @ map midi_to_hz fitted @
            replicate (nat (min (int (length mel)) (seg_end + 64) - seg_end)) 0)"
proof -
  define fitted where
    "fitted = take (nat (seg_end - seg_start)) f0 @ replicate (nat (seg_end - seg_start) - length f0) None"
  have fit: "fit_f0_segment f0 (seg_end - seg_start) = Inr fitted"
    using assms by (simp add: fit_f0_segment_eq fitted_def)
  have len: "int (length fitted) = seg_end - seg_start"
    using assms by (simp add: fitted_def)
  have nth: "fitted ! i = (if i < length f0 then f0 ! i else None)" if "i < length fitted" for i
    using that by (auto simp: fitted_def nth_append)
  have hz: "midi_to_hz (fitted ! i) = 0" if "i < length fitted" "length f0 \<le> i" for i
    using that nth[of i] by (simp add: midi_to_hz_def)
  show ?thesis
    using fit len nth hz vocoder_input_eq[OF assms, of f0] unfolding fitted_def[symmetric]
    by blast
qed

theorem fit_f0_segment_sentinel_padded_witness:
  "\<exists>mel_slice. fit_f0_segment [Some 60] (7 - 5) = Inr [Some 60, None] \<and>
     vocoder_input (replicate 10 ()) (5, 7) [Some 60] =
       Inr (mel_slice, replicate 5 0 @ [midi_to_hz (Some 60), 0] @ replicate 3 0)"
  using fit_f0_segment_sentinel_padded[of 5 7 "replicate 10 ()" "[Some 60]"]
  by (auto simp: midi_to_hz_def fit_f0_segment_def np_pad_def)

text \<open>
  The claim as stated fails: a slice that is too short is not padded with zeros. A pitch
  of zero is a voiced pitch (about 8.18 Hz), the padding the code uses is unvoiced.
\<close>

theorem fit_f0_segment_zero_pad_counterexample:
  "fit_f0_segment [Some 60] 2 = Inr [Some 60, None] \<and>
   zero_pad_or_truncate [Some 60] 2 = [Some 60, Some 0] \<and>
   midi_to_hz None = 0 \<and> midi_to_hz (Some 0) \<noteq> 0"
  by (simp add: fit_f0_segment_def np_pad_def zero_pad_or_truncate_def midi_to_hz_def
      numeral_2_eq_2)

section \<open>Properties of the editor\<close>

subsection \<open>The current track\<close>

lemma current_track_set_current_track:
  "current_track g = Some t \<Longrightarrow> current_track (set_current_track g t') = Some t'"
  by (auto simp: current_track_def set_current_track_def split: if_splits)

lemma current_track_update_other [simp]:
  "current_track (g\<lparr>last_mouse_pos := p\<rparr>) = current_track g"
  "current_track (g\<lparr>status_label := s\<rparr>) = current_track g"
  "current_track (g\<lparr>is_dirty := b\<rparr>) = current_track g"
  "current_track (g\<lparr>move_start_x := mx\<rparr>) = current_track g"
  "current_track (g\<lparr>move_start_frame := mf\<rparr>) = current_track g"
  by (simp_all add: current_track_def)

lemma tool_mode_set_current_track [simp]:
  "tool_mode (set_current_track g t) = tool_mode g"
  "last_mouse_pos (set_current_track g t) = last_mouse_pos g"
  by (simp_all add: set_current_track_def)

lemma history_depth_current: "current_track g = Some t \<Longrightarrow> history_depth g = length (undo_stack t)"
  by (simp add: history_depth_def)

lemma push_undo_vocal:
  assumes "current_track g = Some t" "track_type t = ''vocal''" "f0_edited t = Some f0"
  shows "push_undo g = set_current_track g
     (t\<lparr>undo_stack := (if length (undo_stack t) \<ge> 16 then tl (undo_stack t @ [f0])
                         else undo_stack t @ [f0]),
        redo_stack := []\<rparr>)"
  using assms by (simp add: push_undo_def Let_def)

lemma current_track_demo_gui: "current_track demo_gui = Some demo_track"
  by (simp add: current_track_def demo_gui_def)

subsection \<open>Marking segments and editing one frame\<close>

lemma mark_dirty_result:
  "i + length segs \<le> length states \<Longrightarrow>
   \<exists>states'. mark_dirty segs i lo hi states = Inr states' \<and>
     length states' = length states \<and>
     (\<forall>k<length states. dirty (states' ! k) =
        (dirty (states ! k) \<or>
         (i \<le> k \<and> k < i + length segs \<and>
          fst (segs ! (k - i)) \<le> hi \<and> lo < snd (segs ! (k - i)))))"
proof (induction segs arbitrary: i states)
  case Nil
  then show ?case by auto
next
  case (Cons seg segs)
  obtain s e where seg: "seg = (s, e)" by (cases seg)
  let ?hit = "\<not> (hi < s \<or> lo \<ge> e)"
  let ?st = "if ?hit then states[i := (states ! i)\<lparr>dirty := True\<rparr>] else states"
  have i: "i < length states" using Cons.prems by simp
  have step: "mark_dirty (seg # segs) i lo hi states = mark_dirty segs (i + 1) lo hi ?st"
    using i by (simp add: seg)
  have "i + 1 + length segs \<le> length ?st" using Cons.prems by simp
  from Cons.IH[OF this] obtain states' where
    r: "mark_dirty segs (i + 1) lo hi ?st = Inr states'" "length states' = length ?st"
      "\<forall>k<length ?st. dirty (states' ! k) =
        (dirty (?st ! k) \<or>
         (i + 1 \<le> k \<and> k < i + 1 + length segs \<and>
          fst (segs ! (k - (i + 1))) \<le> hi \<and> lo < snd (segs ! (k - (i + 1)))))"
    by blast
  have "dirty (states' ! k) =
        (dirty (states ! k) \<or>
         (i \<le> k \<and> k < i + length (seg # segs) \<and>
          fst ((seg # segs) ! (k - i)) \<le> hi \<and> lo < snd ((seg # segs) ! (k - i))))"
    if k: "k < length states" for k
  proof (cases "k = i")
    case True
    then show ?thesis using r(3) k i by (auto simp: seg)
  next
    case False
    then have "(seg # segs) ! (k - i) = segs ! (k - (i + 1))" if "i \<le> k"
      using that by (simp add: nth_Cons')
    then show ?thesis using r(3) k False by (auto simp: nth_list_update)
  qed
  then show ?case using r(1,2) step by auto
qed

lemma np_index_in_range: "0 \<le> i \<Longrightarrow> i < int n \<Longrightarrow> np_index n i = Inr (nat i)"
  by (simp add: np_index_def)

lemma draw_point_single:
  assumes "0 \<le> x" "x < int (length f0)"
    and "is_left \<or> is_right \<and> (\<exists>orig. f0_orig = Some orig \<and> x < int (length orig))"
  shows "\<exists>v. draw_point is_left is_right f0_orig x y f0 = Inr (f0[nat x := v], True)"
  using assms by (auto simp: draw_point_def np_index_in_range)

lemma draw_edit_single:
  assumes "0 \<le> x" "x < int (length f0)"
    and "last_pos = None \<or> (\<exists>last_y. last_pos = Some (x, last_y))"
    and "is_left \<or> is_right \<and> (\<exists>orig. f0_orig = Some orig \<and> x < int (length orig))"
  shows "\<exists>v. draw_edit last_pos is_left is_right f0_orig x y f0 = Inr (f0[nat x := v], True, x, x)"
proof -
  obtain v where v: "draw_point is_left is_right f0_orig x y f0 = Inr (f0[nat x := v], True)"
    using draw_point_single[OF assms(1,2,4)] by blast
  from assms(3) show ?thesis
  proof
    assume "last_pos = None"
    then show ?thesis using v by (auto simp: draw_edit_def)
  next
    assume "\<exists>last_y. last_pos = Some (x, last_y)"
    then obtain last_y where "last_pos = Some (x, last_y)" by blast
    moreover have "max 0 x = x" "min (int (length f0) - 1) x = x"
      using assms(1,2) by auto
    ultimately show ?thesis using v by (auto simp: draw_edit_def Let_def)
  qed
qed

subsection \<open>Claim C3\<close>

text \<open>
  C3. A call of \<open>handle_draw\<close> that edits the single frame \<open>x\<close> of the current vocal track
  (a click, or a drag that stays on the frame of the last position; left button, or right
  button with an original curve) sets the dirty flag of exactly the segments with
  \<open>seg_start \<le> x < seg_end\<close> and leaves every other dirty flag as it was.
\<close>

theorem handle_draw_single_frame_dirty:
  assumes ct: "current_track g = Some t"
    and vocal: "track_type t = ''vocal''"
    and f0: "f0_edited t = Some f0"
    and x: "x = py_int (fst point) - start_frame t" "0 \<le> x" "x < int (length f0)"
    and single: "last_mouse_pos g = None \<or> (\<exists>last_y. last_mouse_pos g = Some (x, last_y))"
    and edit: "is_left \<or> is_right \<and> (\<exists>orig. f0_original t = Some orig \<and> x < int (length orig))"
    and states: "length (segments t) \<le> length (segment_states t)"
  shows "\<exists>g' t' v. handle_draw g point is_left is_right = Inr g' \<and>
      current_track g' = Some t' \<and>
      f0_edited t' = Some (f0[nat x := v]) \<and>
      segments t' = segments t \<and>
      length (segment_states t') = length (segment_states t) \<and>
      (\<forall>k<length (segment_states t).
         dirty (segment_states t' ! k) =
           (dirty (segment_states t ! k) \<or>
            k < length (segments t) \<and>
            fst (segments t ! k) \<le> x \<and> x < snd (segments t ! k)))"
proof -
  define g1 where "g1 = (if last_mouse_pos g = None then push_undo g else g)"
  obtain t1 where t1: "current_track g1 = Some t1" "f0_edited t1 = Some f0"
      "f0_original t1 = f0_original t" "segments t1 = segments t"
      "segment_states t1 = segment_states t"
  proof (cases "last_mouse_pos g = None")
    case True
    let ?t1 = "t\<lparr>undo_stack := (if length (undo_stack t) \<ge> 16 then tl (undo_stack t @ [f0])
                         else undo_stack t @ [f0]), redo_stack := []\<rparr>"
    have "current_track g1 = Some ?t1"
      using True ct by (simp add: g1_def push_undo_vocal[OF ct vocal f0] current_track_set_current_track)
    then show ?thesis using that[of ?t1] f0 by simp
  next
    case False
    then have "current_track g1 = Some t" using ct by (auto simp: g1_def)
    then show ?thesis using that[of t] f0 by simp
  qed
  have lp: "last_mouse_pos g1 = last_mouse_pos g"
    using ct vocal f0 by (simp add: g1_def push_undo_vocal[OF ct vocal f0] set_current_track_def)
  obtain v where v: "draw_edit (last_mouse_pos g1) is_left is_right (f0_original t) x
      (snd point) f0 = Inr (f0[nat x := v], True, x, x)"
    using draw_edit_single[OF x(2,3), of "last_mouse_pos g1" is_left is_right "f0_original t"
        "snd point"] single edit
    unfolding lp by blast
  obtain states' where m: "mark_dirty (segments t) 0 x x (segment_states t) = Inr states'"
      "length states' = length (segment_states t)"
      "\<forall>k<length (segment_states t). dirty (states' ! k) =
        (dirty (segment_states t ! k) \<or>
         (0 \<le> k \<and> k < 0 + length (segments t) \<and>
          fst (segments t ! (k - 0)) \<le> x \<and> x < snd (segments t ! (k - 0))))"
    using mark_dirty_result[of 0 "segments t" "segment_states t" x x] states by auto
  define t' where "t' = t1\<lparr>f0_edited := Some (f0[nat x := v]), segment_states := states'\<rparr>"
  define g' where "g' = (set_current_track g1 t')\<lparr>last_mouse_pos := Some (x, snd point),
      is_dirty := True, status_label := PitchModified\<rparr>"
  have "draw_at g1 x (snd point) is_left is_right = Inr g'"
    using x(2,3) by (simp add: draw_at_def t1 v m g'_def t'_def)
  then have hd: "handle_draw g point is_left is_right = Inr g'"
    using ct vocal f0 x(1) by (simp add: handle_draw_def g1_def Let_def)
  have ct': "current_track g' = Some t'"
    using t1(1) by (simp add: g'_def current_track_set_current_track)
  show ?thesis
    using hd ct' m(2,3) t1 by (auto simp: t'_def)
qed

theorem handle_draw_single_frame_dirty_witness:
  "\<exists>g' t'. handle_draw demo_gui (3 / 2, 64) True False = Inr g' \<and>
      current_track g' = Some t' \<and>
      dirty (segment_states t' ! 0) \<and> \<not> dirty (segment_states t' ! 1)"
proof -
  have "\<exists>g' t' v. handle_draw demo_gui (3 / 2, 64) True False = Inr g' \<and>
      current_track g' = Some t' \<and>
      f0_edited t' = Some ([Some 60, Some 61, None, Some 62][nat 1 := v]) \<and>
      segments t' = segments demo_track \<and>
      length (segment_states t') = length (segment_states demo_track) \<and>
      (\<forall>k<length (segment_states demo_track).
         dirty (segment_states t' ! k) =
           (dirty (segment_states demo_track ! k) \<or>
            k < length (segments demo_track) \<and>
            fst (segments demo_track ! k) \<le> 1 \<and> 1 < snd (segments demo_track ! k)))"
    by (rule handle_draw_single_frame_dirty[OF current_track_demo_gui])
      (simp_all add: demo_track_def demo_gui_def py_int_def)
  then obtain g' t' where r: "handle_draw demo_gui (3 / 2, 64) True False = Inr g'"
    "current_track g' = Some t'"
    "\<forall>k<length (segment_states demo_track).
         dirty (segment_states t' ! k) =
           (dirty (segment_states demo_track ! k) \<or>
            k < length (segments demo_track) \<and>
            fst (segments demo_track ! k) \<le> 1 \<and> 1 < snd (segments demo_track ! k))"
    by blast
  have "dirty (segment_states t' ! 0)" "\<not> dirty (segment_states t' ! 1)"
    using r(3)[rule_format, of 0] r(3)[rule_format, of 1] by (simp_all add: demo_track_def)
  with r(1,2) show ?thesis by blast
qed

section \<open>Properties of the edit history\<close>

subsection \<open>Strokes never fail on a well-formed vocal track and push a snapshot\<close>

lemma draw_readyE:
  assumes "draw_ready g"
  obtains t f0 where "tool_mode g = ''draw''" "current_track g = Some t"
    "track_type t = ''vocal''" "length (segments t) \<le> length (segment_states t)"
    "f0_edited t = Some f0" "orig_covers (f0_original t) (length f0)"
proof -
  from assms obtain t where t: "tool_mode g = ''draw''" "current_track g = Some t"
    "track_type t = ''vocal''" "length (segments t) \<le> length (segment_states t)"
    "case f0_edited t of None \<Rightarrow> False | Some f0 \<Rightarrow> orig_covers (f0_original t) (length f0)"
    by (auto simp: draw_ready_def split: option.splits)
  from t(5) obtain f0 where "f0_edited t = Some f0" "orig_covers (f0_original t) (length f0)"
    by (cases "f0_edited t") auto
  with t show ?thesis using that by blast
qed

lemma draw_readyI:
  assumes "tool_mode g = ''draw''" "current_track g = Some t"
    "track_type t = ''vocal''" "length (segments t) \<le> length (segment_states t)"
    "f0_edited t = Some f0" "orig_covers (f0_original t) (length f0)"
  shows "draw_ready g"
  using assms by (simp add: draw_ready_def)

lemma push_undo_ready:
  assumes "draw_ready g"
  shows "draw_ready (push_undo g) \<and> history_depth (push_undo g) = bump (history_depth g) \<and>
         last_mouse_pos (push_undo g) = last_mouse_pos g"
proof -
  from assms obtain t f0 where h: "tool_mode g = ''draw''" "current_track g = Some t"
    "track_type t = ''vocal''" "length (segments t) \<le> length (segment_states t)"
    "f0_edited t = Some f0" "orig_covers (f0_original t) (length f0)"
    by (rule draw_readyE)
  let ?t = "t\<lparr>undo_stack := (if length (undo_stack t) \<ge> 16 then tl (undo_stack t @ [f0])
                         else undo_stack t @ [f0]), redo_stack := []\<rparr>"
  have p: "push_undo g = set_current_track g ?t"
    by (rule push_undo_vocal[OF h(2,3,5)])
  have ct: "current_track (push_undo g) = Some ?t"
    unfolding p by (rule current_track_set_current_track[OF h(2)])
  have "draw_ready (push_undo g)"
    by (rule draw_readyI[OF _ ct, of f0]) (use h in \<open>simp_all add: p\<close>)
  moreover have "history_depth (push_undo g) = bump (history_depth g)"
    by (simp add: history_depth_def ct h(2) bump_def)
  moreover have "last_mouse_pos (push_undo g) = last_mouse_pos g"
    by (simp add: p)
  ultimately show ?thesis by simp
qed

lemma draw_point_total:
  assumes "0 \<le> x" "x < int (length f0)" "orig_covers f0_orig (length f0)"
  shows "\<exists>f0' ch. draw_point is_left is_right f0_orig x y f0 = Inr (f0', ch) \<and>
           length f0' = length f0"
  using assms by (auto simp: draw_point_def np_index_in_range orig_covers_def)

lemma draw_line_total:
  assumes "\<forall>i\<in>set idx. 0 \<le> i \<and> i < int (length f0)"
    and "orig_covers f0_orig (length f0)"
  shows "\<exists>f0' ch. draw_line idx is_left is_right f0_orig last_x last_y x y f0 changed
            = Inr (f0', ch) \<and> length f0' = length f0"
  using assms
proof (induction idx arbitrary: f0 changed)
  case Nil
  then show ?case by simp
next
  case (Cons i idx)
  have i: "0 \<le> i" "i < int (length f0)" using Cons.prems(1) by simp_all
  have rest: "\<forall>j\<in>set idx. 0 \<le> j \<and> j < int (length (f0[nat i := v]))" for v
    using Cons.prems(1) by simp
  have orig: "orig_covers f0_orig (length (f0[nat i := v]))" for v
    using Cons.prems(2) by simp
  have rest0: "\<forall>j\<in>set idx. 0 \<le> j \<and> j < int (length f0)"
    using Cons.prems(1) by simp
  show ?case
  proof (cases is_left)
    case True
    then show ?thesis
      using Cons.IH[OF rest orig] i by (simp add: np_index_in_range Let_def)
  next
    case False
    show ?thesis
    proof (cases "is_right \<and> f0_orig \<noteq> None")
      case True
      then obtain og where og: "f0_orig = Some og" by auto
      then have "i < int (length og)" using Cons.prems(2) i by (simp add: orig_covers_def)
      then show ?thesis
        using Cons.IH[OF rest orig] i False True og by (simp add: np_index_in_range)
    next
      case nr: False
      then show ?thesis
        using Cons.IH[OF rest0 Cons.prems(2)] False by (auto split: option.splits)
    qed
  qed
qed

lemma draw_edit_total:
  assumes "0 \<le> x" "x < int (length f0)" "orig_covers f0_orig (length f0)"
  shows "\<exists>f0' ch lo hi. draw_edit last_pos is_left is_right f0_orig x y f0
            = Inr (f0', ch, lo, hi) \<and> length f0' = length f0"
proof (cases last_pos)
  case None
  then show ?thesis
    using draw_point_total[OF assms, of is_left is_right y] by (auto simp: draw_edit_def)
next
  case (Some lp)
  obtain last_x last_y where lp: "lp = (last_x, last_y)" by (cases lp)
  let ?s = "max 0 (min last_x x)" and ?e = "min (int (length f0) - 1) (max last_x x)"
  have idx: "\<forall>i\<in>set [?s..?e]. 0 \<le> i \<and> i < int (length f0)" by auto
  obtain f1 c1 where l: "draw_line [?s..?e] is_left is_right f0_orig last_x last_y x y f0 False
            = Inr (f1, c1)" "length f1 = length f0"
    using draw_line_total[OF idx assms(3)] by blast
  obtain f2 c2 where p: "draw_point is_left is_right f0_orig x y f0 = Inr (f2, c2)"
      "length f2 = length f0"
    using draw_point_total[OF assms] by blast
  show ?thesis
    using l p by (simp add: draw_edit_def Some lp Let_def)
qed

lemma draw_at_ready:
  assumes "draw_ready g"
  shows "\<exists>g'. draw_at g x y is_left is_right = Inr g' \<and> draw_ready g' \<and>
           history_depth g' = history_depth g"
proof -
  from assms obtain t f0 where h: "tool_mode g = ''draw''" "current_track g = Some t"
    "track_type t = ''vocal''" "length (segments t) \<le> length (segment_states t)"
    "f0_edited t = Some f0" "orig_covers (f0_original t) (length f0)"
    by (rule draw_readyE)
  show ?thesis
  proof (cases "0 \<le> x \<and> x < int (length f0)")
    case False
    then have "draw_at g x y is_left is_right = Inr g"
      using h by (auto simp: draw_at_def)
    then show ?thesis using assms by simp
  next
    case True
    then obtain f0' ch lo hi where e:
      "draw_edit (last_mouse_pos g) is_left is_right (f0_original t) x y f0 = Inr (f0', ch, lo, hi)"
      "length f0' = length f0"
      using draw_edit_total[OF _ _ h(6)] by blast
    obtain states where m:
      "(if ch then mark_dirty (segments t) 0 lo hi (segment_states t)
        else Inr (segment_states t)) = Inr states"
      "length states = length (segment_states t)"
      using mark_dirty_result[of 0 "segments t" "segment_states t" lo hi] h(4)
      by (cases ch) auto
    define t' where "t' = t\<lparr>f0_edited := Some f0', segment_states := states\<rparr>"
    define g1 where "g1 = (set_current_track g t')\<lparr>last_mouse_pos := Some (x, y)\<rparr>"
    define g' where "g' = (if ch then g1\<lparr>is_dirty := True, status_label := PitchModified\<rparr> else g1)"
    have d: "draw_at g x y is_left is_right = Inr g'"
      using True h(2,5) e(1) m(1)
      by (simp add: draw_at_def g'_def g1_def t'_def Let_def)
    have ct: "current_track g' = Some t'"
      using h(2) by (simp add: g'_def g1_def current_track_set_current_track)
    have tm: "tool_mode g' = ''draw''"
      using h(1) by (simp add: g'_def g1_def)
    have "draw_ready g'"
      by (rule draw_readyI[OF tm ct, of f0']) (use h e(2) m(2) in \<open>simp_all add: t'_def\<close>)
    moreover have "history_depth g' = history_depth g"
      by (simp add: history_depth_current[OF ct] history_depth_current[OF h(2)] t'_def)
    ultimately show ?thesis using d by blast
  qed
qed

lemma handle_draw_ready:
  assumes "draw_ready g"
  shows "\<exists>g'. handle_draw g point is_left is_right = Inr g' \<and> draw_ready g' \<and>
           history_depth g' =
             (if last_mouse_pos g = None then bump (history_depth g) else history_depth g)"
proof -
  from assms obtain t f0 where h: "tool_mode g = ''draw''" "current_track g = Some t"
    "track_type t = ''vocal''" "length (segments t) \<le> length (segment_states t)"
    "f0_edited t = Some f0" "orig_covers (f0_original t) (length f0)"
    by (rule draw_readyE)
  define g1 where "g1 = (if last_mouse_pos g = None then push_undo g else g)"
  have g1: "draw_ready g1"
    "history_depth g1 = (if last_mouse_pos g = None then bump (history_depth g) else history_depth g)"
    using push_undo_ready[OF assms] assms by (simp_all add: g1_def)
  have "handle_draw g point is_left is_right =
          draw_at g1 (py_int (fst point) - start_frame t) (snd point) is_left is_right"
    using h by (simp add: handle_draw_def g1_def Let_def)
  then show ?thesis
    using draw_at_ready[OF g1(1), of "py_int (fst point) - start_frame t" "snd point" is_left is_right]
      g1(2) by auto
qed

lemma bump_mono: "d \<le> bump d"
  by (simp add: bump_def)

lemma bump_bump: "2 \<le> bump (bump d)"
  by (simp add: bump_def)

lemma on_scene_mouse_move_ready:
  assumes "draw_ready g"
  shows "\<exists>g'. on_scene_mouse_move g is_left is_right point = Inr g' \<and> draw_ready g' \<and>
           history_depth g \<le> history_depth g'"
proof -
  from assms obtain t f0 where h: "tool_mode g = ''draw''" "current_track g = Some t"
    "track_type t = ''vocal''" "length (segments t) \<le> length (segment_states t)"
    "f0_edited t = Some f0" "orig_covers (f0_original t) (length f0)"
    by (rule draw_readyE)
  show ?thesis
  proof (cases "is_left \<or> is_right")
    case False
    then have "on_scene_mouse_move g is_left is_right point = Inr (g\<lparr>last_mouse_pos := None\<rparr>)"
      using h by (simp add: on_scene_mouse_move_def)
    moreover have "draw_ready (g\<lparr>last_mouse_pos := None\<rparr>)"
      using assms by (simp add: draw_ready_def)
    moreover have "history_depth (g\<lparr>last_mouse_pos := None\<rparr>) = history_depth g"
      by (simp add: history_depth_def)
    ultimately show ?thesis by simp
  next
    case True
    then have "on_scene_mouse_move g is_left is_right point = handle_draw g point is_left is_right"
      using h by (simp add: on_scene_mouse_move_def)
    then show ?thesis
      using handle_draw_ready[OF assms, of point is_left is_right] bump_mono[of "history_depth g"]
      by (auto split: if_splits)
  qed
qed

lemma mouse_moves_ready:
  "draw_ready g \<Longrightarrow>
     \<exists>g'. mouse_moves g is_left points = Inr g' \<and> draw_ready g' \<and>
           history_depth g \<le> history_depth g'"
proof (induction points arbitrary: g)
  case Nil
  then show ?case by simp
next
  case (Cons point points)
  from on_scene_mouse_move_ready[OF Cons.prems, of is_left "\<not> is_left" point]
  obtain g1 where g1: "on_scene_mouse_move g is_left (\<not> is_left) point = Inr g1"
    "draw_ready g1" "history_depth g \<le> history_depth g1" by blast
  from Cons.IH[OF g1(2)] obtain g' where
    "mouse_moves g1 is_left points = Inr g'" "draw_ready g'" "history_depth g1 \<le> history_depth g'"
    by blast
  then show ?case using g1 by auto
qed

lemma on_scene_mouse_click_ready:
  assumes "draw_ready g" "btn = LeftButton \<or> btn = RightButton"
  shows "\<exists>g'. on_scene_mouse_click g False True btn point = Inr g' \<and> draw_ready g' \<and>
           history_depth g' = bump (history_depth g)"
proof -
  from assms(1) obtain t f0 where h: "tool_mode g = ''draw''" "current_track g = Some t"
    "track_type t = ''vocal''" "length (segments t) \<le> length (segment_states t)"
    "f0_edited t = Some f0" "orig_covers (f0_original t) (length f0)"
    by (rule draw_readyE)
  let ?g = "g\<lparr>last_mouse_pos := None\<rparr>"
  have r: "draw_ready ?g" "history_depth ?g = history_depth g"
    using assms(1) by (simp_all add: draw_ready_def history_depth_def)
  have "on_scene_mouse_click g False True btn point =
          handle_draw ?g point (btn = LeftButton) (btn = RightButton)"
    using h assms(2) by (auto simp: on_scene_mouse_click_def Let_def)
  then show ?thesis
    using handle_draw_ready[OF r(1), of point "btn = LeftButton" "btn = RightButton"] r(2)
    by simp
qed

lemma mouseReleaseEvent_ready:
  assumes "draw_ready g"
  shows "draw_ready (mouseReleaseEvent g) \<and> history_depth (mouseReleaseEvent g) = history_depth g"
  using assms by (simp add: mouseReleaseEvent_def draw_ready_def history_depth_def)

lemma edit_stroke_ready:
  assumes "draw_ready g"
  shows "\<exists>g'. edit_stroke g is_left point points = Inr g' \<and> draw_ready g' \<and>
           bump (history_depth g) \<le> history_depth g'"
proof -
  let ?btn = "if is_left then LeftButton else RightButton"
  have "?btn = LeftButton \<or> ?btn = RightButton" by simp
  from on_scene_mouse_click_ready[OF assms this, of point]
  obtain g1 where g1: "on_scene_mouse_click g False True ?btn point = Inr g1"
    "draw_ready g1" "history_depth g1 = bump (history_depth g)" by blast
  from mouse_moves_ready[OF g1(2), of is_left points]
  obtain g2 where g2: "mouse_moves g1 is_left points = Inr g2" "draw_ready g2"
    "history_depth g1 \<le> history_depth g2" by blast
  have "edit_stroke g is_left point points = Inr (mouseReleaseEvent g2)"
    using g1(1) g2(1) by (simp add: edit_stroke_def)
  then show ?thesis
    using mouseReleaseEvent_ready[OF g2(2)] g1(3) g2(3) by simp
qed

subsection \<open>Undo and redo\<close>

lemma undo_step:
  assumes "current_track g = Some t" "track_type t = ''vocal''" "f0_edited t = Some f"
    "undo_stack t = us @ [u]"
  shows "\<exists>g' t'. undo g = Inr g' \<and> current_track g' = Some t' \<and>
     track_type t' = ''vocal'' \<and> f0_edited t' = Some u \<and> undo_stack t' = us \<and>
     redo_stack t' = redo_stack t @ [f] \<and>
     segment_states t' = all_dirty (segment_states t)"
  using assms by (simp add: undo_def current_track_set_current_track)

lemma redo_step:
  assumes "current_track g = Some t" "track_type t = ''vocal''" "f0_edited t = Some f"
    "redo_stack t = rs @ [r]"
  shows "\<exists>g' t'. redo g = Inr g' \<and> current_track g' = Some t' \<and>
     track_type t' = ''vocal'' \<and> f0_edited t' = Some r \<and> redo_stack t' = rs \<and>
     undo_stack t' = undo_stack t @ [f] \<and>
     segment_states t' = all_dirty (segment_states t)"
  using assms by (simp add: redo_def current_track_set_current_track)

lemma two_last: "2 \<le> length xs \<Longrightarrow> \<exists>us u1 u2. xs = us @ [u1, u2]"
proof (induction xs rule: rev_induct)
  case Nil
  then show ?case by simp
next
  case (snoc x xs)
  then have "xs \<noteq> []" by auto
  then obtain ys y where "xs = ys @ [y]" by (metis rev_exhaust)
  then show ?case by simp
qed

lemma undo_undo_redo_redo:
  assumes ct: "current_track g = Some t" and vocal: "track_type t = ''vocal''"
    and f: "f0_edited t = Some f" and depth: "2 \<le> length (undo_stack t)"
  shows "\<exists>g3 g4 g5 g6 t6. undo g = Inr g3 \<and> undo g3 = Inr g4 \<and> redo g4 = Inr g5 \<and>
     redo g5 = Inr g6 \<and> current_track g6 = Some t6 \<and>
     f0_edited t6 = f0_edited t \<and> undo_stack t6 = undo_stack t \<and> redo_stack t6 = redo_stack t"
proof -
  from two_last[OF depth] obtain us u1 u2 where us: "undo_stack t = us @ [u1, u2]" by blast
  then have us': "undo_stack t = (us @ [u1]) @ [u2]" by simp
  from undo_step[OF ct vocal f us'] obtain g3 t3 where
    s3: "undo g = Inr g3" "current_track g3 = Some t3" "track_type t3 = ''vocal''"
      "f0_edited t3 = Some u2" "undo_stack t3 = us @ [u1]" "redo_stack t3 = redo_stack t @ [f]"
    by blast
  from undo_step[OF s3(2,3,4,5)] obtain g4 t4 where
    s4: "undo g3 = Inr g4" "current_track g4 = Some t4" "track_type t4 = ''vocal''"
      "f0_edited t4 = Some u1" "undo_stack t4 = us" "redo_stack t4 = redo_stack t3 @ [u2]"
    by blast
  from redo_step[OF s4(2,3,4,6)] obtain g5 t5 where
    s5: "redo g4 = Inr g5" "current_track g5 = Some t5" "track_type t5 = ''vocal''"
      "f0_edited t5 = Some u2" "redo_stack t5 = redo_stack t3" "undo_stack t5 = undo_stack t4 @ [u1]"
    by blast
  have r5: "redo_stack t5 = redo_stack t @ [f]" using s5(5) s3(6) by simp
  from redo_step[OF s5(2,3,4) r5] obtain g6 t6 where
    s6: "redo g5 = Inr g6" "current_track g6 = Some t6"
      "f0_edited t6 = Some f" "redo_stack t6 = redo_stack t" "undo_stack t6 = undo_stack t5 @ [u2]"
    by blast
  have "undo_stack t6 = undo_stack t" using s6(5) s5(6) s4(5) us by simp
  then show ?thesis using s3(1) s4(1) s5(1) s6(1,2,3,4) f by auto
qed

subsection \<open>Claim C4\<close>

text \<open>
  C4. On a vocal track (draw tool active, pitch curve present), two edit strokes, each a
  button press, any number of mouse moves and a release, both succeed; undoing twice
  and redoing twice afterwards succeeds and leaves \<open>f0_edited\<close>, and both history stacks,
  exactly as they were after the second stroke.
\<close>

theorem undo_redo_symmetry:
  assumes "draw_ready g"
  shows "\<exists>g1 g2 t2 g3 g4 g5 g6 t6.
     edit_stroke g left1 point1 moves1 = Inr g1 \<and>
     edit_stroke g1 left2 point2 moves2 = Inr g2 \<and>
     current_track g2 = Some t2 \<and>
     undo g2 = Inr g3 \<and> undo g3 = Inr g4 \<and> redo g4 = Inr g5 \<and> redo g5 = Inr g6 \<and>
     current_track g6 = Some t6 \<and>
     f0_edited t6 = f0_edited t2 \<and>
     undo_stack t6 = undo_stack t2 \<and> redo_stack t6 = redo_stack t2"
proof -
  from edit_stroke_ready[OF assms, of left1 point1 moves1] obtain g1 where
    g1: "edit_stroke g left1 point1 moves1 = Inr g1" "draw_ready g1"
      "bump (history_depth g) \<le> history_depth g1" by blast
  from edit_stroke_ready[OF g1(2), of left2 point2 moves2] obtain g2 where
    g2: "edit_stroke g1 left2 point2 moves2 = Inr g2" "draw_ready g2"
      "bump (history_depth g1) \<le> history_depth g2" by blast
  from g2(2) obtain t2 f2 where t2: "current_track g2 = Some t2" "track_type t2 = ''vocal''"
    "f0_edited t2 = Some f2" by (rule draw_readyE)
  have "2 \<le> bump (bump (history_depth g))" by (rule bump_bump)
  also have "\<dots> \<le> bump (history_depth g1)" using g1(3) by (auto simp: bump_def)
  also have "\<dots> \<le> history_depth g2" by (rule g2(3))
  finally have "2 \<le> length (undo_stack t2)" by (simp add: history_depth_current[OF t2(1)])
  from undo_undo_redo_redo[OF t2 this] g1(1) g2(1) t2(1) show ?thesis by blast
qed

theorem undo_redo_symmetry_witness:
  "draw_ready demo_gui \<and>
   (\<exists>g1 g2 t2 g3 g4 g5 g6 t6.
     edit_stroke demo_gui True (1, 64) [(2, 65)] = Inr g1 \<and>
     edit_stroke g1 False (3, 0) [] = Inr g2 \<and>
     current_track g2 = Some t2 \<and>
     undo g2 = Inr g3 \<and> undo g3 = Inr g4 \<and> redo g4 = Inr g5 \<and> redo g5 = Inr g6 \<and>
     current_track g6 = Some t6 \<and>
     f0_edited t6 = f0_edited t2 \<and>
     undo_stack t6 = undo_stack t2 \<and> redo_stack t6 = redo_stack t2)"
proof -
  have r: "draw_ready demo_gui"
    by (simp add: draw_ready_def current_track_demo_gui)
      (simp add: demo_gui_def demo_track_def orig_covers_def)
  show ?thesis
    using r undo_redo_symmetry[OF r, of True "(1, 64)" "[(2, 65)]" False "(3, 0)" "[]"]
    by simp
qed

subsection \<open>Claim C8\<close>

text \<open>
  C8, as amended. With a vocal track selected, \<open>undo\<close> on an empty undo stack sets the
  status text "nothing to undo" and changes nothing else: the state returned differs
  from the state before in the status label only, so \<open>f0_edited\<close>, both stacks and all
  dirty flags are as before. Symmetrically for \<open>redo\<close> on an empty redo stack. With no
  track selected, or a track that is not a vocal track, \<open>undo\<close> and \<open>redo\<close> return the
  state as it is, without any message.
\<close>

theorem undo_redo_empty_stack:
  "(current_track g = Some t \<and> track_type t = ''vocal'' \<and> undo_stack t = [] \<longrightarrow>
      undo g = Inr (g\<lparr>status_label := NothingToUndo\<rparr>) \<and>
      tracks (g\<lparr>status_label := NothingToUndo\<rparr>) = tracks g) \<and>
   (current_track g = Some t \<and> track_type t = ''vocal'' \<and> redo_stack t = [] \<longrightarrow>
      redo g = Inr (g\<lparr>status_label := NothingToRedo\<rparr>) \<and>
      tracks (g\<lparr>status_label := NothingToRedo\<rparr>) = tracks g) \<and>
   (current_track g = None \<or> current_track g = Some t \<and> track_type t \<noteq> ''vocal'' \<longrightarrow>
      undo g = Inr g \<and> redo g = Inr g)"
  by (auto simp: undo_def redo_def)

lemma current_track_instrumental_gui: "current_track instrumental_gui = Some instrumental_track"
  by (simp add: current_track_def instrumental_gui_def demo_gui_def)

theorem undo_redo_empty_stack_witness:
  "current_track demo_gui = Some demo_track \<and> track_type demo_track = ''vocal'' \<and>
   undo_stack demo_track = [] \<and> redo_stack demo_track = [] \<and>
   undo demo_gui = Inr (demo_gui\<lparr>status_label := NothingToUndo\<rparr>) \<and>
   redo demo_gui = Inr (demo_gui\<lparr>status_label := NothingToRedo\<rparr>) \<and>
   current_track instrumental_gui = Some instrumental_track \<and>
   track_type instrumental_track \<noteq> ''vocal'' \<and>
   undo instrumental_gui = Inr instrumental_gui \<and> redo instrumental_gui = Inr instrumental_gui"
  using undo_redo_empty_stack[of demo_gui demo_track]
    undo_redo_empty_stack[of instrumental_gui instrumental_track]
    current_track_demo_gui current_track_instrumental_gui
  by (simp add: demo_track_def instrumental_track_def)

text \<open>
  The claim as stated fails: with a track selected that is not a vocal track, and whose
  undo and redo stacks are empty, \<open>undo\<close> and \<open>redo\<close> return at their first check and
  report nothing; the status label keeps the text it had.
\<close>

theorem undo_non_vocal_silent_counterexample:
  "current_track instrumental_gui = Some instrumental_track \<and>
   undo_stack instrumental_track = [] \<and> redo_stack instrumental_track = [] \<and>
   undo instrumental_gui = Inr instrumental_gui \<and>
   redo instrumental_gui = Inr instrumental_gui \<and>
   status_label instrumental_gui = StatusOther"
  by (simp add: undo_def redo_def current_track_instrumental_gui)
    (simp add: instrumental_gui_def instrumental_track_def demo_gui_def demo_track_def)

section \<open>Properties of the mixer\<close>

subsection \<open>Adding into a slice\<close>

lemma slice_bound_range: "0 \<le> n \<Longrightarrow> 0 \<le> slice_bound n i \<and> slice_bound n i \<le> n"
  by (auto simp: slice_bound_def)

lemma np_add_slice_length:
  "np_add_slice xs a b v = Inr ys \<Longrightarrow> length ys = length xs"
proof -
  let ?n = "int (length xs)"
  have r: "0 \<le> slice_bound ?n a" "slice_bound ?n a \<le> ?n" "0 \<le> slice_bound ?n b" "slice_bound ?n b \<le> ?n"
    using slice_bound_range[of ?n] by simp_all
  then have le: "nat (slice_bound ?n a) + nat (slice_bound ?n b - slice_bound ?n a) \<le> length xs"
    by arith
  assume "np_add_slice xs a b v = Inr ys"
  then show ?thesis
    using le by (auto simp: np_add_slice_def Let_def split: if_splits)
qed

lemma np_add_slice_in_range:
  assumes "0 \<le> a" "a + int (length v) \<le> int (length xs)"
  shows "\<exists>ys. np_add_slice xs a (a + int (length v)) v = Inr ys \<and> length ys = length xs \<and>
     (\<forall>k<length xs. ys ! k =
        xs ! k + (if a \<le> int k \<and> int k < a + int (length v) then v ! nat (int k - a) else 0))"
proof -
  let ?a = "nat a" and ?l = "length v"
  have sb: "slice_bound (int (length xs)) a = a"
      "slice_bound (int (length xs)) (a + int (length v)) = a + int (length v)"
    using assms by (auto simp: slice_bound_def)
  have fit: "?a + ?l \<le> length xs" using assms by arith
  let ?ys = "take ?a xs @ map2 (+) (take ?l (drop ?a xs)) v @ drop (?a + ?l) xs"
  have eq: "np_add_slice xs a (a + int (length v)) v = Inr ?ys"
    using fit by (simp add: np_add_slice_def sb Let_def)
  have len: "length ?ys = length xs" using fit by simp
  have nth: "?ys ! k = xs ! k + (if a \<le> int k \<and> int k < a + int (length v) then v ! nat (int k - a) else 0)"
    if k: "k < length xs" for k
  proof -
    consider "k < ?a" | "?a \<le> k" "k < ?a + ?l" | "?a + ?l \<le> k" by linarith
    then show ?thesis
    proof cases
      case 1
      then have "?ys ! k = xs ! k" using fit by (simp add: nth_append)
      moreover have "\<not> a \<le> int k" using 1 assms(1) by arith
      ultimately show ?thesis by simp
    next
      case 2
      have ka: "nat (int k - a) = k - ?a" using 2 assms(1) by arith
      have j: "k - ?a < ?l" using 2 by arith
      have lm: "length (map2 (+) (take ?l (drop ?a xs)) v) = ?l" using fit by simp
      have "?ys ! k = (map2 (+) (take ?l (drop ?a xs)) v @ drop (?a + ?l) xs) ! (k - ?a)"
        using 2 fit by (simp add: nth_append)
      also have "\<dots> = map2 (+) (take ?l (drop ?a xs)) v ! (k - ?a)"
        using j lm by (metis nth_append)
      also have "\<dots> = take ?l (drop ?a xs) ! (k - ?a) + v ! (k - ?a)"
        using j fit by simp
      also have "take ?l (drop ?a xs) ! (k - ?a) = xs ! k"
        using j 2 fit by simp
      finally have "?ys ! k = xs ! k + v ! (k - ?a)" .
      moreover have "a \<le> int k \<and> int k < a + int (length v)" using 2 assms(1) by arith
      ultimately show ?thesis using ka by simp
    next
      case 3
      have lm: "length (map2 (+) (take ?l (drop ?a xs)) v) = ?l" using fit by simp
      have "?ys ! k = (map2 (+) (take ?l (drop ?a xs)) v @ drop (?a + ?l) xs) ! (k - ?a)"
        using 3 fit by (simp add: nth_append)
      also have "\<dots> = drop (?a + ?l) xs ! (k - ?a - ?l)"
      proof -
        have "\<not> k - ?a < length (map2 (+) (take ?l (drop ?a xs)) v)"
          unfolding lm using 3 by arith
        then show ?thesis
          unfolding nth_append lm by (simp only: if_False)
      qed
      also have "\<dots> = xs ! k" using 3 k by simp
      finally have "?ys ! k = xs ! k" .
      moreover have "\<not> int k < a + int (length v)" using 3 assms(1) by arith
      ultimately show ?thesis by simp
    qed
  qed
  show ?thesis using eq len nth by blast
qed

subsection \<open>The two loops\<close>

lemma mix_max_len_ge: "mix_max_len proc ts m = Inr M \<Longrightarrow> m \<le> M"
proof (induction ts arbitrary: m)
  case Nil
  then show ?case by simp
next
  case (Cons t ts)
  show ?case
  proof (cases "synthesized_audio t")
    case None
    then show ?thesis using Cons by simp
  next
    case (Some audio)
    then obtain hop where hop: "ui_hop_size proc = Inr hop"
      using Cons.prems by (auto split: sum.splits)
    then have "mix_max_len proc ts (max m (start_frame t * hop + int (length audio))) = Inr M"
      using Cons.prems Some by (simp add: Let_def)
    from Cons.IH[OF this] show ?thesis by simp
  qed
qed

lemma mix_max_len_no_audio:
  "\<forall>t\<in>set ts. synthesized_audio t = None \<Longrightarrow> mix_max_len proc ts m = Inr m"
  by (induction ts arbitrary: m) simp_all

lemma mix_add_length: "mix_add proc ts mixed = Inr mixed' \<Longrightarrow> length mixed' = length mixed"
proof (induction ts arbitrary: mixed)
  case Nil
  then show ?case by simp
next
  case (Cons t ts)
  show ?case
  proof (cases "synthesized_audio t")
    case None
    then show ?thesis using Cons by simp
  next
    case (Some audio)
    then obtain hop ys where
      "np_add_slice mixed (start_frame t * hop) (start_frame t * hop + int (length audio))
         (map (\<lambda>s. s * volume t) audio) = Inr ys" "mix_add proc ts ys = Inr mixed'"
      using Cons.prems by (auto simp: Let_def split: sum.splits)
    then show ?thesis using Cons.IH[of ys] np_add_slice_length by fastforce
  qed
qed

lemma mix_max_len_bound:
  assumes "ui_hop_size proc = Inr hop"
  shows "\<exists>M. mix_max_len proc ts m = Inr M \<and> m \<le> M \<and>
     (\<forall>t\<in>set ts. \<forall>audio. synthesized_audio t = Some audio \<longrightarrow>
        start_frame t * hop + int (length audio) \<le> M)"
proof (induction ts arbitrary: m)
  case Nil
  then show ?case by simp
next
  case (Cons t ts)
  show ?case
  proof (cases "synthesized_audio t")
    case None
    then show ?thesis using Cons.IH[of m] by auto
  next
    case (Some audio)
    from Cons.IH[of "max m (start_frame t * hop + int (length audio))"]
    obtain M where M: "mix_max_len proc ts (max m (start_frame t * hop + int (length audio))) = Inr M"
      "max m (start_frame t * hop + int (length audio)) \<le> M"
      "\<forall>t\<in>set ts. \<forall>audio. synthesized_audio t = Some audio \<longrightarrow>
        start_frame t * hop + int (length audio) \<le> M" by blast
    then show ?thesis using Some assms by (auto simp: Let_def)
  qed
qed

lemma mix_add_sum:
  assumes "ui_hop_size proc = Inr hop"
    and "\<forall>t\<in>set ts. 0 \<le> start_frame t * hop"
    and "\<forall>t\<in>set ts. \<forall>audio. synthesized_audio t = Some audio \<longrightarrow>
           start_frame t * hop + int (length audio) \<le> int (length mixed)"
  shows "\<exists>mixed'. mix_add proc ts mixed = Inr mixed' \<and> length mixed' = length mixed \<and>
     (\<forall>k<length mixed. mixed' ! k = mixed ! k + sum_list (map (\<lambda>t. contribution hop t k) ts))"
  using assms(2,3)
proof (induction ts arbitrary: mixed)
  case Nil
  then show ?case by simp
next
  case (Cons t ts)
  show ?case
  proof (cases "synthesized_audio t")
    case None
    from Cons.IH[of mixed] Cons.prems obtain mixed' where
      "mix_add proc ts mixed = Inr mixed'" "length mixed' = length mixed"
      "\<forall>k<length mixed. mixed' ! k = mixed ! k + sum_list (map (\<lambda>t. contribution hop t k) ts)"
      by auto
    then show ?thesis using None by (simp add: contribution_def)
  next
    case (Some audio)
    let ?a = "start_frame t * hop"
    let ?v = "map (\<lambda>s. s * volume t) audio"
    have a: "0 \<le> ?a" "?a + int (length ?v) \<le> int (length mixed)"
      using Cons.prems Some by simp_all
    from np_add_slice_in_range[OF a] obtain ys where ys:
      "np_add_slice mixed ?a (?a + int (length ?v)) ?v = Inr ys" "length ys = length mixed"
      "\<forall>k<length mixed. ys ! k =
        mixed ! k + (if ?a \<le> int k \<and> int k < ?a + int (length ?v) then ?v ! nat (int k - ?a) else 0)"
      by blast
    have c: "ys ! k = mixed ! k + contribution hop t k" if "k < length mixed" for k
    proof (cases "?a \<le> int k \<and> int k < ?a + int (length audio)")
      case True
      then have "nat (int k - ?a) < length audio" by arith
      then show ?thesis using ys(3) that True Some by (simp add: contribution_def Let_def)
    next
      case False
      then show ?thesis using ys(3) that Some by (auto simp: contribution_def Let_def)
    qed
    from Cons.IH[of ys] Cons.prems ys(2) obtain mixed' where m:
      "mix_add proc ts ys = Inr mixed'" "length mixed' = length ys"
      "\<forall>k<length ys. mixed' ! k = ys ! k + sum_list (map (\<lambda>t. contribution hop t k) ts)"
      by auto
    have "mix_add proc (t # ts) mixed = Inr mixed'"
      using Some assms(1) ys(1) m(1) by (simp add: Let_def)
    then show ?thesis using m(2,3) ys(2) c by (simp add: add.assoc)
  qed
qed

lemma mix_max_len_Max:
  assumes "ui_hop_size proc = Inr hop"
  shows "0 \<le> m \<Longrightarrow> mix_max_len proc ts m = Inr (Max (insert m (track_end hop ` set ts)))"
proof (induction ts arbitrary: m)
  case Nil
  then show ?case by simp
next
  case (Cons t ts)
  have fin: "finite (track_end hop ` set ts)" by simp
  show ?case
  proof (cases "synthesized_audio t")
    case None
    then have te: "track_end hop t = 0" by (simp add: track_end_def)
    have "Max (insert m (insert 0 (track_end hop ` set ts))) = Max (insert m (track_end hop ` set ts))"
    proof -
      have "Max (insert 0 (insert m (track_end hop ` set ts)))
              = max 0 (Max (insert m (track_end hop ` set ts)))"
        by (rule Max_insert) simp_all
      moreover have "m \<le> Max (insert m (track_end hop ` set ts))" by simp
      then have "0 \<le> Max (insert m (track_end hop ` set ts))" using Cons.prems by linarith
      ultimately show ?thesis by (simp add: insert_commute max_absorb2)
    qed
    then show ?thesis using None Cons.IH[OF Cons.prems] te by simp
  next
    case (Some audio)
    let ?e = "start_frame t * hop + int (length audio)"
    have te: "track_end hop t = ?e" using Some by (simp add: track_end_def)
    have "0 \<le> max m ?e" using Cons.prems by simp
    from Cons.IH[OF this]
    have "mix_max_len proc ts (max m ?e) = Inr (Max (insert (max m ?e) (track_end hop ` set ts)))" .
    moreover have "Max (insert (max m ?e) (track_end hop ` set ts))
        = Max (insert m (insert ?e (track_end hop ` set ts)))"
    proof (cases "track_end hop ` set ts = {}")
      case True
      then show ?thesis by (simp add: max.commute)
    next
      case False
      then show ?thesis using fin by (simp add: max.assoc)
    qed
    ultimately show ?thesis using Some assms te by (simp add: Let_def)
  qed
qed

lemma mix_participants_eq:
  "mix_participants ts =
     (if \<exists>t\<in>set ts. solo t then filter solo ts else filter (\<lambda>t. \<not> muted t) ts)"
  by (auto simp: mix_participants_def Let_def filter_empty_conv)

lemma ui_hop_size_mix_gui: "ui_hop_size (processor mix_gui) = Inr 512"
  by (simp add: ui_hop_size_def config_hop_size_def mix_gui_def demo_gui_def)

lemma mix_tracks_mix_gui: "mix_tracks mix_gui = Inr (Some [1, 2])"
  by (simp add: mix_tracks_def mix_participants_def mix_gui_def demo_gui_def mix_track_a_def
      mix_track_b_def mix_track_c_def demo_track_def ui_hop_size_def config_hop_size_def
      np_add_slice_def slice_bound_def Let_def numeral_2_eq_2)

lemma ui_hop_size_duet_gui: "ui_hop_size (processor duet_gui) = Inr 512"
  by (simp add: ui_hop_size_def config_hop_size_def duet_gui_def demo_gui_def)

lemma mix_tracks_duet_gui: "mix_tracks duet_gui = Inr (Some [2, 3, 1])"
  by (simp add: mix_tracks_def mix_participants_def duet_gui_def demo_gui_def mix_track_a_def
      mix_track_d_def demo_track_def ui_hop_size_def config_hop_size_def
      np_add_slice_def slice_bound_def Let_def numeral_2_eq_2 numeral_3_eq_3)

subsection \<open>Claim C5\<close>

text \<open>
  C5. The participants of the mix are the soloed tracks when some track is soloed, and the
  non-muted tracks otherwise. When the hop size is available and no track starts before
  sample 0, mixing succeeds: it returns no buffer when no participant's waveform ends
  after sample 0, and otherwise a buffer that reaches to the latest end of a
  participant's waveform and in which every sample is the sum of the contributions of
  exactly the participants; a participant with a non-empty waveform makes the buffer
  non-empty. In particular, for tracks \<open>A\<close> (not muted, not soloed), \<open>B\<close> (not muted,
  soloed) and \<open>C\<close> (muted, not soloed) the only participant is \<open>B\<close>, every sample of the
  mix is \<open>B\<close>'s contribution, and when \<open>B\<close> has a non-empty waveform the mix is returned
  and ends where that waveform ends.
\<close>

theorem mix_tracks_solo_precedence:
  assumes hop: "ui_hop_size (processor g) = Inr hop"
    and start: "\<forall>t\<in>set (tracks g). 0 \<le> start_frame t * hop"
  shows "mix_participants (tracks g) =
      (if \<exists>t\<in>set (tracks g). solo t then filter solo (tracks g)
       else filter (\<lambda>t. \<not> muted t) (tracks g)) \<and>
    (\<exists>res. mix_tracks g = Inr res \<and>
       (\<forall>mixed. res = Some mixed \<longrightarrow>
          (\<forall>k<length mixed.
             mixed ! k = sum_list (map (\<lambda>t. contribution hop t k) (mix_participants (tracks g)))))) \<and>
    (Max (insert 0 (track_end hop ` set (mix_participants (tracks g)))) = 0 \<longrightarrow>
       mix_tracks g = Inr None) \<and>
    (Max (insert 0 (track_end hop ` set (mix_participants (tracks g)))) \<noteq> 0 \<longrightarrow>
       (\<exists>mixed. mix_tracks g = Inr (Some mixed) \<and>
          int (length mixed) = Max (insert 0 (track_end hop ` set (mix_participants (tracks g)))) \<and>
          (\<forall>k<length mixed.
             mixed ! k = sum_list (map (\<lambda>t. contribution hop t k) (mix_participants (tracks g)))))) \<and>
    ((\<exists>t\<in>set (mix_participants (tracks g)). \<exists>audio. synthesized_audio t = Some audio \<and> audio \<noteq> []) \<longrightarrow>
       (\<exists>mixed. mix_tracks g = Inr (Some mixed) \<and> mixed \<noteq> [])) \<and>
    (tracks g = [a, b, c] \<and> \<not> muted a \<and> \<not> solo a \<and> \<not> muted b \<and> solo b \<and>
       muted c \<and> \<not> solo c \<longrightarrow>
       mix_participants (tracks g) = [b] \<and>
       (\<forall>mixed. mix_tracks g = Inr (Some mixed) \<longrightarrow>
          (\<forall>k<length mixed. mixed ! k = contribution hop b k)) \<and>
       (\<forall>audio. synthesized_audio b = Some audio \<and> audio \<noteq> [] \<longrightarrow>
          (\<exists>mixed. mix_tracks g = Inr (Some mixed) \<and>
             int (length mixed) = start_frame b * hop + int (length audio) \<and>
             (\<forall>k<length mixed. mixed ! k = contribution hop b k))))"
proof -
  let ?ps = "mix_participants (tracks g)"
  let ?M = "Max (insert 0 (track_end hop ` set ?ps))"
  have sub: "set ?ps \<subseteq> set (tracks g)"
    by (auto simp: mix_participants_eq)
  have M: "mix_max_len (processor g) ?ps 0 = Inr ?M"
    by (rule mix_max_len_Max[OF hop]) simp
  have M0: "0 \<le> ?M" by simp
  have Mt: "track_end hop t \<le> ?M" if "t \<in> set ?ps" for t
    using that by simp
  have fit: "\<forall>t\<in>set ?ps. \<forall>audio. synthesized_audio t = Some audio \<longrightarrow>
        start_frame t * hop + int (length audio) \<le> int (length (replicate (nat ?M) (0::real)))"
  proof (intro ballI allI impI)
    fix t audio assume "t \<in> set ?ps" "synthesized_audio t = Some audio"
    then have "start_frame t * hop + int (length audio) \<le> ?M"
      using Mt[of t] by (simp add: track_end_def)
    then show "start_frame t * hop + int (length audio) \<le> int (length (replicate (nat ?M) (0::real)))"
      using M0 by simp
  qed
  have st: "\<forall>t\<in>set ?ps. 0 \<le> start_frame t * hop"
    using start sub by blast
  obtain mixed' where m: "mix_add (processor g) ?ps (replicate (nat ?M) 0) = Inr mixed'"
    "length mixed' = nat ?M"
    "\<forall>k<nat ?M. mixed' ! k = sum_list (map (\<lambda>t. contribution hop t k) ?ps)"
    using mix_add_sum[OF hop st fit] by auto
  have none: "mix_tracks g = Inr None" if "?M = 0"
    using M that by (simp add: mix_tracks_def Let_def)
  have some: "\<exists>mixed. mix_tracks g = Inr (Some mixed) \<and> int (length mixed) = ?M \<and>
          (\<forall>k<length mixed. mixed ! k = sum_list (map (\<lambda>t. contribution hop t k) ?ps))"
    if "?M \<noteq> 0"
  proof -
    have ne: "?ps \<noteq> []" using that by auto
    have "mix_tracks g = Inr (Some mixed')"
      using M m(1) that ne by (simp add: mix_tracks_def Let_def)
    then show ?thesis using m(2,3) M0 by auto
  qed
  have res: "\<exists>res. mix_tracks g = Inr res \<and>
       (\<forall>mixed. res = Some mixed \<longrightarrow>
          (\<forall>k<length mixed. mixed ! k = sum_list (map (\<lambda>t. contribution hop t k) ?ps)))"
    using none some by (cases "?M = 0") auto
  have nonempty: "\<exists>mixed. mix_tracks g = Inr (Some mixed) \<and> mixed \<noteq> []"
    if "\<exists>t\<in>set ?ps. \<exists>audio. synthesized_audio t = Some audio \<and> audio \<noteq> []"
  proof -
    from that obtain t audio where t: "t \<in> set ?ps" "synthesized_audio t = Some audio" "audio \<noteq> []"
      by blast
    have "0 < track_end hop t" using t st by (simp add: track_end_def add_nonneg_pos)
    then have "0 < ?M" using Mt[OF t(1)] by linarith
    then show ?thesis using some by auto
  qed
  have abc: "?ps = [b] \<and>
       (\<forall>mixed. mix_tracks g = Inr (Some mixed) \<longrightarrow>
          (\<forall>k<length mixed. mixed ! k = contribution hop b k)) \<and>
       (\<forall>audio. synthesized_audio b = Some audio \<and> audio \<noteq> [] \<longrightarrow>
          (\<exists>mixed. mix_tracks g = Inr (Some mixed) \<and>
             int (length mixed) = start_frame b * hop + int (length audio) \<and>
             (\<forall>k<length mixed. mixed ! k = contribution hop b k)))"
    if "tracks g = [a, b, c]" "\<not> muted a" "\<not> solo a" "\<not> muted b" "solo b" "muted c" "\<not> solo c"
  proof -
    have ps: "?ps = [b]" using that by (simp add: mix_participants_eq)
    have one: "\<forall>mixed. mix_tracks g = Inr (Some mixed) \<longrightarrow>
          (\<forall>k<length mixed. mixed ! k = contribution hop b k)"
      using res ps by auto
    have two: "\<exists>mixed. mix_tracks g = Inr (Some mixed) \<and>
             int (length mixed) = start_frame b * hop + int (length audio) \<and>
             (\<forall>k<length mixed. mixed ! k = contribution hop b k)"
      if au: "synthesized_audio b = Some audio" "audio \<noteq> []" for audio
    proof -
      have "0 \<le> start_frame b * hop" using st ps by simp
      moreover have "0 < int (length audio)" using au(2) by simp
      ultimately have pos: "0 < start_frame b * hop + int (length audio)" by linarith
      have "?M = start_frame b * hop + int (length audio)"
        using au(1) pos by (simp add: ps track_end_def)
      moreover from this pos have "?M \<noteq> 0" by linarith
      ultimately have "?M = start_frame b * hop + int (length audio)" "?M \<noteq> 0" by blast+
      then show ?thesis using some one by auto
    qed
    show ?thesis using ps one two by blast
  qed
  show ?thesis
    by (intro conjI impI) (use mix_participants_eq[of "tracks g"] res none some nonempty abc in blast)+
qed

theorem mix_tracks_solo_precedence_witness:
  "ui_hop_size (processor mix_gui) = Inr 512 \<and>
   list_all (\<lambda>t. 0 \<le> start_frame t * 512) (tracks mix_gui) \<and>
   tracks mix_gui = [mix_track_a, mix_track_b, mix_track_c] \<and>
   \<not> muted mix_track_a \<and> \<not> solo mix_track_a \<and> \<not> muted mix_track_b \<and> solo mix_track_b \<and>
   muted mix_track_c \<and> \<not> solo mix_track_c \<and>
   mix_participants (tracks mix_gui) = [mix_track_b] \<and>
   mix_tracks mix_gui = Inr (Some [1, 2]) \<and>
   [1, 2] ! 0 = contribution 512 mix_track_b 0 \<and> [1, 2] ! 1 = contribution 512 mix_track_b 1 \<and>
   ui_hop_size (processor duet_gui) = Inr 512 \<and>
   list_all (\<lambda>t. 0 \<le> start_frame t * 512) (tracks duet_gui) \<and>
   mix_participants (tracks duet_gui) = [mix_track_a, mix_track_d] \<and>
   mix_tracks duet_gui = Inr (Some [2, 3, 1]) \<and>
   [2, 3, 1] ! 1 = contribution 512 mix_track_a 1 + contribution 512 mix_track_d 1"
proof -
  have st: "\<forall>t\<in>set (tracks mix_gui). 0 \<le> start_frame t * 512"
    by (simp add: mix_gui_def mix_track_a_def mix_track_b_def mix_track_c_def demo_track_def)
  have flags: "tracks mix_gui = [mix_track_a, mix_track_b, mix_track_c]"
    "\<not> muted mix_track_a" "\<not> solo mix_track_a" "\<not> muted mix_track_b" "solo mix_track_b"
    "muted mix_track_c" "\<not> solo mix_track_c"
    by (simp_all add: mix_gui_def mix_track_a_def mix_track_b_def mix_track_c_def demo_track_def)
  from mix_tracks_solo_precedence[OF ui_hop_size_mix_gui st, of mix_track_a mix_track_b mix_track_c]
    flags
  have r: "mix_participants (tracks mix_gui) = [mix_track_b]"
    "\<forall>mixed. mix_tracks mix_gui = Inr (Some mixed) \<longrightarrow>
          (\<forall>k<length mixed. mixed ! k = contribution 512 mix_track_b k)"
    by blast+
  from r(2) mix_tracks_mix_gui
  have c: "\<forall>k<length [1, 2 :: real]. [1, 2] ! k = contribution 512 mix_track_b k" by blast
  have one: "[1, 2] ! 0 = contribution 512 mix_track_b 0" "[1, 2] ! 1 = contribution 512 mix_track_b 1"
    using c[rule_format, of 0] c[rule_format, of 1] by simp_all
  have st2: "\<forall>t\<in>set (tracks duet_gui). 0 \<le> start_frame t * 512"
    by (simp add: duet_gui_def mix_track_a_def mix_track_d_def demo_track_def)
  have ps2: "mix_participants (tracks duet_gui) = [mix_track_a, mix_track_d]"
    by (simp add: mix_participants_def duet_gui_def mix_track_a_def mix_track_d_def demo_track_def)
  from mix_tracks_solo_precedence[OF ui_hop_size_duet_gui st2]
  have "\<exists>res. mix_tracks duet_gui = Inr res \<and>
       (\<forall>mixed. res = Some mixed \<longrightarrow>
          (\<forall>k<length mixed.
             mixed ! k = sum_list (map (\<lambda>t. contribution 512 t k) (mix_participants (tracks duet_gui)))))"
    by blast
  with mix_tracks_duet_gui ps2
  have d: "\<forall>k<length [2, 3, 1 :: real]. [2, 3, 1] ! k =
      sum_list (map (\<lambda>t. contribution 512 t k) [mix_track_a, mix_track_d])"
    by auto
  have two: "[2, 3, 1] ! 1 = contribution 512 mix_track_a 1 + contribution 512 mix_track_d 1"
    using d[rule_format, of 1] by simp
  show ?thesis
    using ui_hop_size_mix_gui st flags r(1) mix_tracks_mix_gui one
      ui_hop_size_duet_gui st2 ps2 mix_tracks_duet_gui two
    by (simp add: list_all_iff)
qed

subsection \<open>Claim C10\<close>

text \<open>
  C10. \<open>mix_tracks\<close> returns \<open>None\<close> when there is no participant, and also when no
  participant has a synthesized waveform; a buffer it returns is never empty.
\<close>

theorem mix_tracks_no_output:
  "(mix_participants (tracks g) = [] \<longrightarrow> mix_tracks g = Inr None) \<and>
   ((\<forall>t\<in>set (mix_participants (tracks g)). synthesized_audio t = None) \<longrightarrow>
      mix_tracks g = Inr None) \<and>
   (\<forall>mixed. mix_tracks g = Inr (Some mixed) \<longrightarrow> mixed \<noteq> [])"
proof -
  let ?ps = "mix_participants (tracks g)"
  have a: "mix_tracks g = Inr None" if "?ps = []"
    using that by (simp add: mix_tracks_def)
  have b: "mix_tracks g = Inr None" if "\<forall>t\<in>set ?ps. synthesized_audio t = None"
    using mix_max_len_no_audio[OF that, of "processor g" 0]
    by (simp add: mix_tracks_def Let_def)
  have c: "mixed \<noteq> []" if "mix_tracks g = Inr (Some mixed)" for mixed
  proof -
    from that obtain M where M: "mix_max_len (processor g) ?ps 0 = Inr M" "M \<noteq> 0"
      "mix_add (processor g) ?ps (replicate (nat M) 0) = Inr mixed"
      by (auto simp: mix_tracks_def Let_def split: if_splits sum.splits)
    have "0 < M" using mix_max_len_ge[OF M(1)] M(2) by simp
    moreover have "length mixed = nat M" using mix_add_length[OF M(3)] by simp
    ultimately show ?thesis by auto
  qed
  show ?thesis using a b c by blast
qed

theorem mix_tracks_no_output_witness:
  "mix_participants (tracks (demo_gui\<lparr>tracks := []\<rparr>)) = [] \<and>
   mix_tracks (demo_gui\<lparr>tracks := []\<rparr>) = Inr None \<and>
   mix_participants (tracks demo_gui) = [demo_track] \<and>
   synthesized_audio demo_track = None \<and>
   mix_tracks demo_gui = Inr None \<and>
   mix_tracks mix_gui = Inr (Some [1, 2]) \<and> [1, 2 :: real] \<noteq> []"
proof -
  have e: "mix_participants (tracks (demo_gui\<lparr>tracks := []\<rparr>)) = []"
    by (simp add: mix_participants_def)
  have p: "mix_participants (tracks demo_gui) = [demo_track]" "synthesized_audio demo_track = None"
    by (simp_all add: mix_participants_def demo_gui_def demo_track_def)
  show ?thesis
    using mix_tracks_no_output[of "demo_gui\<lparr>tracks := []\<rparr>"] mix_tracks_no_output[of demo_gui]
      mix_tracks_no_output[of mix_gui] e p mix_tracks_mix_gui
    by simp
qed

section \<open>Properties of opening a project\<close>

subsection \<open>Claim C9\<close>




end
